theory Spec2Isabelle
  imports Main "HOL-Library.Monad_Syntax"
begin

section \<open>Data model of \<open>Azul_game\<close>\<close>

text \<open>
  The engine is the Python class \<open>Azul_game\<close> of \<open>games/Azul-test.py\<close>, driven by the
  class \<open>Azul\<close> (its \<open>step\<close> entry point).  A player is the string tag \<open>"P1"\<close> or
  \<open>"P2"\<close>; every method branches on \<open>player == "P1"\<close>.  Tile counts, wall cells, staging
  slots, penalty slots and scores are Python integers, hence \<open>int\<close>.  The only exception
  the engine can raise is Python's \<open>IndexError\<close>; a computation that raises it has the
  value \<open>None\<close>.
\<close>

datatype player = P1 | P2

record game =
  p1_score :: int
  p2_score :: int
  player_turn :: player
  initial_player :: player
  new_first_player :: bool
  board_p1 :: "int list list"
  board_p2 :: "int list list"
  rows_p1 :: "int list list"
  rows_p2 :: "int list list"
  penalty_row_p1 :: "int list"
  penalty_row_p2 :: "int list"
  drawing_pit :: "int list list"
  gameover :: bool
  is_done_phase :: bool
  inserted_tile_in_column_for_action :: int
  penality_for_action :: int

definition rows_of :: "game \<Rightarrow> player \<Rightarrow> int list list" where
  "rows_of s p = (case p of P1 \<Rightarrow> rows_p1 s | P2 \<Rightarrow> rows_p2 s)"

definition board_of :: "game \<Rightarrow> player \<Rightarrow> int list list" where
  "board_of s p = (case p of P1 \<Rightarrow> board_p1 s | P2 \<Rightarrow> board_p2 s)"

definition penalty_of :: "game \<Rightarrow> player \<Rightarrow> int list" where
  "penalty_of s p = (case p of P1 \<Rightarrow> penalty_row_p1 s | P2 \<Rightarrow> penalty_row_p2 s)"

definition score_of :: "game \<Rightarrow> player \<Rightarrow> int" where
  "score_of s p = (case p of P1 \<Rightarrow> p1_score s | P2 \<Rightarrow> p2_score s)"

definition set_rows :: "game \<Rightarrow> player \<Rightarrow> int list list \<Rightarrow> game" where
  "set_rows s p v = (case p of P1 \<Rightarrow> s\<lparr>rows_p1 := v\<rparr> | P2 \<Rightarrow> s\<lparr>rows_p2 := v\<rparr>)"

definition set_board :: "game \<Rightarrow> player \<Rightarrow> int list list \<Rightarrow> game" where
  "set_board s p v = (case p of P1 \<Rightarrow> s\<lparr>board_p1 := v\<rparr> | P2 \<Rightarrow> s\<lparr>board_p2 := v\<rparr>)"

definition set_penalty :: "game \<Rightarrow> player \<Rightarrow> int list \<Rightarrow> game" where
  "set_penalty s p v = (case p of P1 \<Rightarrow> s\<lparr>penalty_row_p1 := v\<rparr> | P2 \<Rightarrow> s\<lparr>penalty_row_p2 := v\<rparr>)"

subsection \<open>Python indexing\<close>

text \<open>
  \<open>xs[i]\<close> on a list (and on a numpy array) accepts \<open>0 \<le> i < len\<close>, reads from the end
  for \<open>-len \<le> i < 0\<close>, and raises \<open>IndexError\<close> otherwise.
\<close>

definition norm_index :: "nat \<Rightarrow> int \<Rightarrow> nat option" where
  "norm_index n i =
     (if 0 \<le> i \<and> i < int n then Some (nat i)
      else if - int n \<le> i \<and> i < 0 then Some (nat (int n + i))
      else None)"

definition getitem :: "'a list \<Rightarrow> int \<Rightarrow> 'a option" where
  "getitem xs i = map_option (\<lambda>k. xs ! k) (norm_index (length xs) i)"

definition setitem :: "'a list \<Rightarrow> int \<Rightarrow> 'a \<Rightarrow> 'a list option" where
  "setitem xs i v = map_option (\<lambda>k. xs[k := v]) (norm_index (length xs) i)"

definition getitem2 :: "'a list list \<Rightarrow> int \<Rightarrow> int \<Rightarrow> 'a option" where
  "getitem2 xss i j = do { r \<leftarrow> getitem xss i; getitem r j }"

definition setitem2 :: "'a list list \<Rightarrow> int \<Rightarrow> int \<Rightarrow> 'a \<Rightarrow> 'a list list option" where
  "setitem2 xss i j v = do { r \<leftarrow> getitem xss i; r' \<leftarrow> setitem r j v; setitem xss i r' }"

text \<open>\<open>range(n)\<close> for an integer \<open>n\<close>: empty when \<open>n \<le> 0\<close>.\<close>

definition range_int :: "int \<Rightarrow> int list" where
  "range_int n = map int [0..<nat n]"

section \<open>ActionCodec\<close>

text \<open>
  \<open>from_action_to_tuple_action\<close> divides with \<open>int(action / 6)\<close>: a float division
  followed by truncation.  In each branch the dividend is non-negative, and for every
  action below \<open>2 ^ 48\<close> the float quotient truncates to the integer quotient, so the
  division is written \<open>div\<close>.
\<close>

definition from_action_to_tuple_action :: "int \<Rightarrow> int \<times> int \<times> int" where
  "from_action_to_tuple_action action =
     (if action < 6 then (action, 0, 0)
      else if action < 30 then (action mod 6, action div 6, 0)
      else (action mod 6, (action mod (6 * 5)) div 6, action div (6 * 5)))"

definition from_tuple_action_to_action :: "int \<Rightarrow> int \<Rightarrow> int \<Rightarrow> int" where
  "from_tuple_action_to_action action_pit_choice action_tile_type action_column_choice =
     action_pit_choice + action_tile_type * 6 + action_column_choice * 6 * 5"

text \<open>The decoder as the specification words it.\<close>

definition spec_decode :: "int \<Rightarrow> int \<times> int \<times> int" where
  "spec_decode i = (i mod 6, (i div 6) mod 5, i div 30)"

section \<open>RuleEngine\<close>

definition valid_move :: "game \<Rightarrow> player \<Rightarrow> int \<Rightarrow> int \<Rightarrow> int \<Rightarrow> bool option" where
  "valid_move s player pit_choice tile_type column_choice = do {
     drawed_tile \<leftarrow> getitem2 (drawing_pit s) pit_choice tile_type;
     if drawed_tile = 0 then Some False
     else if column_choice \<noteq> 5 then do {
       cell \<leftarrow> getitem2 (board_of s player) column_choice ((tile_type + column_choice) mod 5);
       if cell = 1 then Some False
       else do {
         r0 \<leftarrow> getitem2 (rows_of s player) column_choice 0;
         Some (r0 = 0 \<or> r0 = tile_type + 1)
       }
     }
     else Some True
   }"

text \<open>The loop of \<open>take_tile_from_pit\<close> that moves the rest of a factory to the center.\<close>

fun discard_tiles :: "int list list \<Rightarrow> int \<Rightarrow> int list \<Rightarrow> int list list option" where
  "discard_tiles dp pit_choice [] = Some dp"
| "discard_tiles dp pit_choice (i # is) = do {
     discarded_tile \<leftarrow> getitem2 dp pit_choice i;
     dp1 \<leftarrow> setitem2 dp pit_choice i 0;
     c \<leftarrow> getitem2 dp1 5 i;
     dp2 \<leftarrow> setitem2 dp1 5 i (c + discarded_tile);
     discard_tiles dp2 pit_choice is
   }"

definition take_tile_from_pit :: "game \<Rightarrow> int \<Rightarrow> int \<Rightarrow> player \<Rightarrow> (int \<times> game) option" where
  "take_tile_from_pit s pit_choice tile_type player = do {
     drawed_tiles \<leftarrow> getitem2 (drawing_pit s) pit_choice tile_type;
     dp \<leftarrow> setitem2 (drawing_pit s) pit_choice tile_type 0;
     let s1 = (if \<not> new_first_player s
               then s\<lparr>new_first_player := False, initial_player := player\<rparr> else s);
     dp' \<leftarrow> (if pit_choice \<noteq> 5 then discard_tiles dp pit_choice (range_int 5) else Some dp);
     Some (drawed_tiles, s1\<lparr>drawing_pit := dp'\<rparr>)
   }"

definition penalty_cost :: "int \<Rightarrow> int" where
  "penalty_cost i = (if i < 2 then 1 else if i < 5 then 2 else 3)"

fun penalty_loop :: "int list \<Rightarrow> int \<Rightarrow> int \<Rightarrow> int list \<Rightarrow> (int list \<times> int \<times> int) option" where
  "penalty_loop row pfa n [] = Some (row, pfa, n)"
| "penalty_loop row pfa n (i # is) = do {
     v \<leftarrow> getitem row i;
     if v = 0 \<and> n > 0 then do {
       row' \<leftarrow> setitem row i 1;
       penalty_loop row' (pfa + penalty_cost i) (n - 1) is
     }
     else penalty_loop row pfa n is
   }"

definition insert_tiles_in_penalty_column :: "game \<Rightarrow> int \<Rightarrow> player \<Rightarrow> game option" where
  "insert_tiles_in_penalty_column s number_of_tiles player = do {
     (row, pfa, n) \<leftarrow> penalty_loop (penalty_of s player) 0 number_of_tiles (range_int 7);
     Some ((set_penalty s player row)\<lparr>penality_for_action := pfa\<rparr>)
   }"

fun fill_loop ::
  "int list list \<Rightarrow> int \<Rightarrow> int \<Rightarrow> int \<Rightarrow> int \<Rightarrow> int list \<Rightarrow> (int list list \<times> int \<times> int) option" where
  "fill_loop rows column_choice tile_type inserted n [] = Some (rows, inserted, n)"
| "fill_loop rows column_choice tile_type inserted n (i # is) = do {
     v \<leftarrow> getitem2 rows column_choice i;
     if v = 0 \<and> n > 0 then do {
       rows' \<leftarrow> setitem2 rows column_choice i (tile_type + 1);
       fill_loop rows' column_choice tile_type (inserted + 1) (n - 1) is
     }
     else fill_loop rows column_choice tile_type inserted n is
   }"

definition insert_tiles_in_column :: "game \<Rightarrow> int \<Rightarrow> int \<Rightarrow> int \<Rightarrow> player \<Rightarrow> game option" where
  "insert_tiles_in_column s tile_type drawed_tiles column_choice player =
     (if column_choice = 5 then insert_tiles_in_penalty_column s drawed_tiles player
      else do {
        (rows, inserted, n) \<leftarrow>
          fill_loop (rows_of s player) column_choice tile_type 0 drawed_tiles
            (range_int (column_choice + 1));
        insert_tiles_in_penalty_column
          ((set_rows s player rows)\<lparr>inserted_tile_in_column_for_action := inserted\<rparr>) n player
      })"

definition play_turn :: "game \<Rightarrow> player \<Rightarrow> int \<Rightarrow> int \<Rightarrow> int \<Rightarrow> (bool \<times> game) option" where
  "play_turn s player pit_choice tile_type column_choice = do {
     let s0 = s\<lparr>penality_for_action := 0\<rparr>;
     ok \<leftarrow> valid_move s0 player pit_choice tile_type column_choice;
     if ok then do {
       (drawed_tiles, s1) \<leftarrow> take_tile_from_pit s0 pit_choice tile_type player;
       s2 \<leftarrow> (if pit_choice = 5 \<and> new_first_player s1
              then insert_tiles_in_penalty_column
                     (s1\<lparr>initial_player := player, new_first_player := False\<rparr>) 1 player
              else Some s1);
       s3 \<leftarrow> (if column_choice \<noteq> 5
              then insert_tiles_in_column s2 tile_type drawed_tiles column_choice player
              else insert_tiles_in_penalty_column s2 drawed_tiles player);
       Some (True, s3\<lparr>player_turn := (if player_turn s3 = P1 then P2 else P1)\<rparr>)
     }
     else Some (False, s0)
   }"

section \<open>ScoringEngine\<close>

fun clear_loop :: "int list list \<Rightarrow> int \<Rightarrow> int list \<Rightarrow> int list list option" where
  "clear_loop rows index_row [] = Some rows"
| "clear_loop rows index_row (i # is) = do {
     rows' \<leftarrow> setitem2 rows index_row i 0;
     clear_loop rows' index_row is
   }"

definition clear_row :: "game \<Rightarrow> int \<Rightarrow> player \<Rightarrow> game option" where
  "clear_row s index_row player = do {
     rows \<leftarrow> clear_loop (rows_of s player) index_row (range_int (index_row + 1));
     Some (set_rows s player rows)
   }"

text \<open>
  The scan of \<open>compute_row_point\<close>: \<open>i\<close> is the running index, \<open>score\<close> the running
  count; before the target column an empty cell resets the count, from the target column
  on an empty cell ends the scan.
\<close>

fun row_scan :: "int \<Rightarrow> int \<Rightarrow> int \<Rightarrow> int list \<Rightarrow> int" where
  "row_scan c i score [] = score"
| "row_scan c i score (e # es) =
     (if i < c then row_scan c (i + 1) (if e \<noteq> 0 then score + 1 else 0) es
      else if e \<noteq> 0 then row_scan c (i + 1) (score + 1) es
      else score)"

definition compute_row_point :: "game \<Rightarrow> int \<Rightarrow> int \<Rightarrow> player \<Rightarrow> int option" where
  "compute_row_point s index_row index_column player = do {
     row \<leftarrow> getitem (board_of s player) index_row;
     Some (row_scan index_column 0 0 row - 1)
   }"

fun col_scan :: "int \<Rightarrow> int \<Rightarrow> int \<Rightarrow> int \<Rightarrow> int list list \<Rightarrow> int option" where
  "col_scan r c i point [] = Some point"
| "col_scan r c i point (row # rows) = do {
     e \<leftarrow> getitem row c;
     if i < r then col_scan r c (i + 1) (if e \<noteq> 0 then point + 1 else 0) rows
     else if e \<noteq> 0 then col_scan r c (i + 1) (point + 1) rows
     else Some point
   }"

definition compute_column_point :: "game \<Rightarrow> int \<Rightarrow> int \<Rightarrow> player \<Rightarrow> int option" where
  "compute_column_point s index_row index_column player = do {
     point \<leftarrow> col_scan index_row index_column 0 0 (board_of s player);
     Some (point - 1)
   }"

definition add_tile_to_scoreboard :: "game \<Rightarrow> int \<Rightarrow> player \<Rightarrow> int \<Rightarrow> (int \<times> game) option" where
  "add_tile_to_scoreboard s tile player index_row = do {
     let index_column = (tile - 1 + index_row) mod 5;
     b \<leftarrow> setitem2 (board_of s player) index_row index_column 1;
     let s1 = set_board s player b;
     score_row \<leftarrow> compute_row_point s1 index_row index_column player;
     score_column \<leftarrow> compute_column_point s1 index_row index_column player;
     Some (1 + score_row + score_column, s1)
   }"

definition update_score :: "game \<Rightarrow> player \<Rightarrow> int \<Rightarrow> game" where
  "update_score s player points =
     (case player of
        P1 \<Rightarrow> if p1_score s + points > 0 then s\<lparr>p1_score := p1_score s + points\<rparr>
              else s\<lparr>p1_score := 0\<rparr>
      | P2 \<Rightarrow> if p2_score s + points > 0 then s\<lparr>p2_score := p2_score s + points\<rparr>
              else s\<lparr>p2_score := 0\<rparr>)"

fun penality_sum :: "int list \<Rightarrow> int \<Rightarrow> int list \<Rightarrow> int option" where
  "penality_sum row penality [] = Some penality"
| "penality_sum row penality (i # is) = do {
     v \<leftarrow> getitem row i;
     penality_sum row (if v \<noteq> 0 then penality - penalty_cost i else penality) is
   }"

definition calculate_penality :: "game \<Rightarrow> player \<Rightarrow> game option" where
  "calculate_penality s player = do {
     penality \<leftarrow> penality_sum (penalty_of s player) 0 (range_int 7);
     Some (update_score s player penality)
   }"

text \<open>
  One iteration of the loop of \<open>calculate_score\<close>, at row index \<open>k\<close>.  The loop walks
  the list of rows; \<open>clear_row\<close> writes only into the row being visited.  The inner loop
  drops \<open>completed_row\<close> at the first slot that differs from \<open>first_elem\<close> or is empty,
  so the row counts as completed when every slot equals \<open>first_elem\<close> and is not empty.
\<close>

definition score_row :: "game \<Rightarrow> player \<Rightarrow> nat \<Rightarrow> game option" where
  "score_row s player k = do {
     let row = rows_of s player ! k;
     first_elem \<leftarrow> getitem row 0;
     if list_all (\<lambda>elem. elem = first_elem \<and> elem \<noteq> 0) row then do {
       s1 \<leftarrow> clear_row s (int k) player;
       (partial_score, s2) \<leftarrow> add_tile_to_scoreboard s1 first_elem player (int k);
       Some (update_score s2 player partial_score)
     }
     else Some s
   }"

fun score_rows :: "game \<Rightarrow> player \<Rightarrow> nat list \<Rightarrow> game option" where
  "score_rows s player [] = Some s"
| "score_rows s player (k # ks) = do { s' \<leftarrow> score_row s player k; score_rows s' player ks }"

definition calculate_score :: "game \<Rightarrow> player \<Rightarrow> game option" where
  "calculate_score s player = do {
     s' \<leftarrow> score_rows s player [0..<length (rows_of s player)];
     calculate_penality s' player
   }"

text \<open>
  The end-game bonus.  A wall is a numpy array of shape (5, 5), so the loops over
  \<open>range(5)\<close> stay inside it.  \<open>cumulative + row\<close> adds a row to the running list
  element by element.
\<close>

definition row_completed_score :: "int list list \<Rightarrow> int" where
  "row_completed_score scoreboard =
     int (length (filter (\<lambda>row. length (filter (\<lambda>tile. tile = 1) row) = 5) scoreboard)) * 2"

definition cumulative :: "int list list \<Rightarrow> int list" where
  "cumulative scoreboard = fold (\<lambda>row acc. map2 (+) acc row) scoreboard [0, 0, 0, 0, 0]"

definition column_completed_score :: "int list list \<Rightarrow> int" where
  "column_completed_score scoreboard =
     int (length (filter (\<lambda>elem. elem = 5) (cumulative scoreboard))) * 5"

definition tile_array :: "int list list \<Rightarrow> int list" where
  "tile_array scoreboard =
     fold (\<lambda>(i, j) ta. if scoreboard ! i ! j = 1
                        then ta[(i + j) mod 5 := ta ! ((i + j) mod 5) + 1] else ta)
       (List.product [0..<5] [0..<5]) [0, 0, 0, 0, 0]"

definition tile_completed_score :: "int list list \<Rightarrow> int" where
  "tile_completed_score scoreboard =
     int (length (filter (\<lambda>elem. elem = 5) (tile_array scoreboard))) * 7"

definition final_bonus :: "int list list \<Rightarrow> int" where
  "final_bonus scoreboard =
     row_completed_score scoreboard + column_completed_score scoreboard
       + tile_completed_score scoreboard"

definition compute_final_points :: "game \<Rightarrow> game" where
  "compute_final_points s =
     s\<lparr>p1_score := p1_score s + final_bonus (board_p1 s),
       p2_score := p2_score s + final_bonus (board_p2 s)\<rparr>"

section \<open>LegalMoveGenerator\<close>

fun valid_actions_loop ::
  "game \<Rightarrow> player \<Rightarrow> (int \<times> int \<times> int) list \<Rightarrow> (int \<times> int \<times> int) list option" where
  "valid_actions_loop s player [] = Some []"
| "valid_actions_loop s player ((i, j, k) # cs) = do {
     ok \<leftarrow> valid_move s player i j k;
     rest \<leftarrow> valid_actions_loop s player cs;
     Some (if ok then (i, j, k) # rest else rest)
   }"

definition all_triples :: "(int \<times> int \<times> int) list" where
  "all_triples =
     concat (map (\<lambda>i. concat (map (\<lambda>j. map (\<lambda>k. (i, j, k)) (range_int 6)) (range_int 5)))
       (range_int 6))"

definition valid_actions :: "game \<Rightarrow> player \<Rightarrow> (int \<times> int \<times> int) list option" where
  "valid_actions s player = valid_actions_loop s player all_triples"

section \<open>RoundController\<close>

definition is_turn_done :: "game \<Rightarrow> game" where
  "is_turn_done s =
     s\<lparr>is_done_phase := list_all (\<lambda>pit. list_all (\<lambda>tile_type. \<not> tile_type \<noteq> 0) pit) (drawing_pit s)\<rparr>"

definition has_full_row :: "int list list \<Rightarrow> bool" where
  "has_full_row board = list_ex (\<lambda>row. sum_list row = 5) board"

definition is_game_done :: "game \<Rightarrow> game" where
  "is_game_done s =
     (let s1 = is_turn_done s in
      if is_done_phase s1
      then s1\<lparr>gameover := (has_full_row (board_p1 s1) \<or> has_full_row (board_p2 s1))\<rparr>
      else s1)"

section \<open>MoveAnalyzer\<close>

fun expected_row_loop :: "int list \<Rightarrow> int \<Rightarrow> int \<Rightarrow> int list \<Rightarrow> int option" where
  "expected_row_loop row_choice idx e [] = Some e"
| "expected_row_loop row_choice idx e (i # is) =
     (if i = idx then expected_row_loop row_choice idx (e + 1) is
      else do {
        v \<leftarrow> getitem row_choice i;
        expected_row_loop row_choice idx (if v = 1 then e + 1 else e) is
      })"

definition compute_expected_row_points ::
  "int list list \<Rightarrow> int \<Rightarrow> int \<Rightarrow> int list list \<Rightarrow> int option" where
  "compute_expected_row_points row_array column_choice tile_type board = do {
     row_choice \<leftarrow> getitem board column_choice;
     expected_row_loop row_choice ((tile_type + column_choice) mod 5) 0 (range_int 5)
   }"

text \<open>
  The inner loop of \<open>compute_expected_column_points\<close> over the slots of a staging row:
  \<open>Inl e\<close> is the early \<open>return e\<close>, \<open>Inr e\<close> the count the outer loop goes on with.
\<close>

fun pending_row_loop :: "bool \<Rightarrow> int \<Rightarrow> int list \<Rightarrow> int + int" where
  "pending_row_loop flag e [] = Inr e"
| "pending_row_loop flag e (tile # tiles) =
     (if tile = 0 then (if \<not> flag then pending_row_loop flag 0 tiles else Inl e)
      else pending_row_loop flag (e + 1) tiles)"

fun expected_column_loop ::
  "int list list \<Rightarrow> int \<Rightarrow> int \<Rightarrow> int list list \<Rightarrow> bool \<Rightarrow> int \<Rightarrow> int list \<Rightarrow> int option" where
  "expected_column_loop row_array column_choice tile_type board flag e [] = Some e"
| "expected_column_loop row_array column_choice tile_type board flag e (i # is) =
     (if i = column_choice
      then expected_column_loop row_array column_choice tile_type board True (e + 1) is
      else do {
        b \<leftarrow> getitem2 board i tile_type;
        if b \<noteq> 0
        then expected_column_loop row_array column_choice tile_type board flag (e + 1) is
        else do {
          r \<leftarrow> getitem row_array i;
          case pending_row_loop flag e r of
            Inl v \<Rightarrow> Some v
          | Inr v \<Rightarrow> expected_column_loop row_array column_choice tile_type board flag v is
        }
      })"

definition compute_expected_column_points ::
  "int list list \<Rightarrow> int \<Rightarrow> int \<Rightarrow> int list list \<Rightarrow> int option" where
  "compute_expected_column_points row_array column_choice tile_type board =
     expected_column_loop row_array column_choice tile_type board False 0 (range_int 5)"

definition action_analisys_row :: "int list list \<Rightarrow> int \<Rightarrow> int option" where
  "action_analisys_row board column_choice = do {
     r \<leftarrow> getitem board column_choice;
     Some (int (length (filter (\<lambda>tile. tile \<noteq> 0) r)))
   }"

definition action_analisys_column :: "int list list \<Rightarrow> int \<Rightarrow> int option" where
  "action_analisys_column board tile_type = getitem (cumulative board) tile_type"

definition weighted_tile_array :: "int list list \<Rightarrow> int list" where
  "weighted_tile_array board =
     fold (\<lambda>(i, j) ta. if board ! i ! j = 1
                        then ta[(i + j) mod 5 := ta ! ((i + j) mod 5) + 1 * int i] else ta)
       (List.product [0..<5] [0..<5]) [0, 0, 0, 0, 0]"

definition action_analisys_color :: "int list list \<Rightarrow> int \<Rightarrow> int option" where
  "action_analisys_color board tile_type = getitem (weighted_tile_array board) tile_type"

definition action_analisys ::
  "game \<Rightarrow> player \<Rightarrow> int \<Rightarrow> int \<Rightarrow> (int \<times> int \<times> int \<times> int \<times> int \<times> int) option" where
  "action_analisys s player tile_type column_choice =
     (if column_choice = 5 then Some (0, 0, 0, 0, 0, 0)
      else do {
        r \<leftarrow> getitem (rows_of s player) column_choice;
        let count_tiles_in_column = int (length (filter (\<lambda>tile. tile = tile_type + 1) r));
        (expected_row_points, expected_column_point) \<leftarrow>
          (if count_tiles_in_column = column_choice + 1 then do {
             erp \<leftarrow> compute_expected_row_points (rows_of s player) column_choice tile_type
                      (board_of s player);
             ecp \<leftarrow> compute_expected_column_points (rows_of s player) column_choice tile_type
                      (board_of s player);
             Some (erp, ecp)
           } else Some (0, 0));
        let column_completed = (if count_tiles_in_column = column_choice + 1 then 1 else 0);
        ar \<leftarrow> action_analisys_row (board_of s player) column_choice;
        ac \<leftarrow> action_analisys_column (board_of s player) tile_type;
        acol \<leftarrow> action_analisys_color (board_of s player) tile_type;
        Some (count_tiles_in_column + ar, count_tiles_in_column + ac,
              count_tiles_in_column + acol, expected_row_points, expected_column_point,
              column_completed)
      })"

section \<open>The step entry point\<close>

text \<open>
  \<open>Azul.step\<close> returns the observation, the reward and the flag \<open>done\<close>.  The observation
  is read off the state by \<open>board_to_obs\<close> without changing it; the model returns the
  state itself in its place.  \<open>have_winner\<close> is the body of the method of that name.
  The field \<open>player\<close> of the wrapper is set to \<open>to_play()\<close> at the end of each step; it
  mirrors \<open>player_turn\<close> and is left out.
\<close>

definition have_winner :: "game \<Rightarrow> bool" where
  "have_winner s = is_done_phase s"

text \<open>The block of \<open>step\<close> that runs once the pools are empty.\<close>

definition score_round :: "game \<Rightarrow> game option" where
  "score_round s =
     (if is_done_phase s then do {
        sa \<leftarrow> calculate_score s P1;
        sb \<leftarrow> calculate_score sa P2;
        Some (if gameover sb then compute_final_points sb else sb)
      } else Some s)"

definition step :: "game \<Rightarrow> int \<Rightarrow> (game \<times> int \<times> bool) option" where
  "step s action = do {
     let (action_pit_choice, action_tile_type, action_column_choice) =
           from_action_to_tuple_action action;
     let player = player_turn s;
     (ok, s1) \<leftarrow> play_turn s player action_pit_choice action_tile_type action_column_choice;
     (row_analisys, column_analisys, color_analisys, expected_row_points,
        expected_column_point, column_completed) \<leftarrow>
          action_analisys s1 player action_tile_type action_column_choice;
     s3 \<leftarrow> score_round (is_game_done (is_turn_done s1));
     let done = have_winner s3;
     let reward = inserted_tile_in_column_for_action s3 + expected_row_points
                    + expected_column_point - penality_for_action s3;
     Some (s3, reward, done)
   }"

section \<open>A new game\<close>

text \<open>
  \<open>create_drawing_pit\<close> fills each of the five factories with four tiles whose colors come
  from \<open>np.random.randint(0, 5)\<close>.  The generated colors are the argument \<open>draws\<close>: one list
  of four colors in [0,5) for each factory.
\<close>

definition valid_draws :: "nat list list \<Rightarrow> bool" where
  "valid_draws draws =
     (length draws = 5 \<and> list_all (\<lambda>ds. length ds = 4 \<and> list_all (\<lambda>g. g < 5) ds) draws)"

definition fill_pit :: "nat list \<Rightarrow> int list" where
  "fill_pit ds = fold (\<lambda>g pit. pit[g := pit ! g + 1]) ds [0, 0, 0, 0, 0]"

definition create_drawing_pit :: "game \<Rightarrow> nat list list \<Rightarrow> game" where
  "create_drawing_pit s draws =
     s\<lparr>new_first_player := True,
       player_turn := initial_player s,
       is_done_phase := False,
       penalty_row_p1 := [0, 0, 0, 0, 0, 0, 0],
       penalty_row_p2 := [0, 0, 0, 0, 0, 0, 0],
       drawing_pit := map fill_pit draws @ [[0, 0, 0, 0, 0]]\<rparr>"

definition initialize_rows :: "int list list" where
  "initialize_rows = [[0], [0, 0], [0, 0, 0], [0, 0, 0, 0], [0, 0, 0, 0, 0]]"

definition zeros55 :: "int list list" where
  "zeros55 = replicate 5 (replicate 5 0)"

definition new_game :: "nat list list \<Rightarrow> game" where
  "new_game draws =
     (create_drawing_pit
        \<lparr>p1_score = 0, p2_score = 0, player_turn = P1, initial_player = P1,
         new_first_player = True, board_p1 = zeros55, board_p2 = zeros55,
         rows_p1 = initialize_rows, rows_p2 = initialize_rows,
         penalty_row_p1 = [0, 0, 0, 0, 0, 0, 0], penalty_row_p2 = [0, 0, 0, 0, 0, 0, 0],
         drawing_pit = [], gameover = False, is_done_phase = False,
         inserted_tile_in_column_for_action = 0, penality_for_action = 0\<rparr> draws)
       \<lparr>gameover := False, is_done_phase := False,
        inserted_tile_in_column_for_action := 0, penality_for_action := 0\<rparr>"

text \<open>The states a game can be in: a new game, and whatever \<open>step\<close> returns from one.\<close>

inductive reachable :: "game \<Rightarrow> bool" where
  reachable_new: "valid_draws draws \<Longrightarrow> reachable (new_game draws)"
| reachable_step: "reachable s \<Longrightarrow> step s action = Some (s', reward, done) \<Longrightarrow> reachable s'"

section \<open>Invariants\<close>

text \<open>
  The shape of a game: six pools of five counts, walls of five rows of five cells,
  staging rows of capacities 1 to 5, penalty tracks of seven slots.
\<close>

definition wf_shape :: "game \<Rightarrow> bool" where
  "wf_shape s =
     (map length (drawing_pit s) = [5, 5, 5, 5, 5, 5]
      \<and> map length (board_p1 s) = [5, 5, 5, 5, 5]
      \<and> map length (board_p2 s) = [5, 5, 5, 5, 5]
      \<and> map length (rows_p1 s) = [1, 2, 3, 4, 5]
      \<and> map length (rows_p2 s) = [1, 2, 3, 4, 5]
      \<and> length (penalty_row_p1 s) = 7
      \<and> length (penalty_row_p2 s) = 7)"

text \<open>
  A staging row is in order when, after its leading run of occupied slots, every slot is
  empty, and every slot of that run holds the value of slot 0.
\<close>

definition staging_ok :: "int list \<Rightarrow> bool" where
  "staging_ok row =
     (list_all (\<lambda>e. e = 0) (dropWhile (\<lambda>e. e \<noteq> 0) row)
      \<and> list_all (\<lambda>e. e = hd row) (takeWhile (\<lambda>e. e \<noteq> 0) row))"

definition game_inv :: "game \<Rightarrow> bool" where
  "game_inv s =
     (wf_shape s \<and> list_all staging_ok (rows_p1 s) \<and> list_all staging_ok (rows_p2 s)
      \<and> 0 \<le> p1_score s \<and> 0 \<le> p2_score s)"

text \<open>
  What the loop of \<open>insert_tiles_in_column\<close> does to the row it fills, slot by slot.
\<close>

fun fill_row :: "int list \<Rightarrow> int \<Rightarrow> int \<Rightarrow> int list" where
  "fill_row [] tile_type n = []"
| "fill_row (e # es) tile_type n =
     (if e = 0 \<and> n > 0 then (tile_type + 1) # fill_row es tile_type (n - 1)
      else e # fill_row es tile_type n)"

text \<open>
  The run of set cells through position \<open>c\<close> of a line of wall cells: the set cells
  that end just before \<open>c\<close> together with those that start at \<open>c\<close>.  When cell \<open>c\<close> is
  set this is the length of the maximal run of set cells that contains it.
\<close>

definition run_through :: "int list \<Rightarrow> nat \<Rightarrow> int" where
  "run_through cells c =
     int (length (takeWhile (\<lambda>e. e \<noteq> 0) (rev (take c cells))))
     + int (length (takeWhile (\<lambda>e. e \<noteq> 0) (drop c cells)))"

section \<open>Example games\<close>

text \<open>Playing a list of action ids through \<open>step\<close>; the flag is the last \<open>done\<close>.\<close>

fun play :: "game \<Rightarrow> int list \<Rightarrow> bool \<Rightarrow> (game \<times> bool) option" where
  "play s [] d = Some (s, d)"
| "play s (a # as) d = do { (s', r, d') \<leftarrow> step s a; play s' as d' }"

definition example_game :: game where
  "example_game = new_game [[0, 0, 1, 2], [1, 1, 1, 1], [2, 3, 4, 4], [0, 1, 2, 3], [4, 4, 4, 4]]"

definition single_color_game :: game where
  "single_color_game =
     new_game [[0, 0, 0, 0], [1, 1, 1, 1], [2, 2, 2, 2], [3, 3, 3, 3], [4, 4, 4, 4]]"

text \<open>The example game after player 1 has drafted color 0 from factory 0 into row 0.\<close>

definition after_first_move :: game where
  "after_first_move =
     \<lparr>p1_score = 0, p2_score = 0, player_turn = P2, initial_player = P1,
      new_first_player = True, board_p1 = zeros55, board_p2 = zeros55,
      rows_p1 = [[1], [0, 0], [0, 0, 0], [0, 0, 0, 0], [0, 0, 0, 0, 0]],
      rows_p2 = initialize_rows,
      penalty_row_p1 = [1, 0, 0, 0, 0, 0, 0], penalty_row_p2 = [0, 0, 0, 0, 0, 0, 0],
      drawing_pit = [[0, 0, 0, 0, 0], [0, 4, 0, 0, 0], [0, 0, 1, 1, 2], [1, 1, 1, 1, 0],
                     [0, 0, 0, 0, 4], [0, 1, 1, 0, 0]],
      gameover = False, is_done_phase = False,
      inserted_tile_in_column_for_action = 1, penality_for_action = 1\<rparr>"

text \<open>
  A wall with row 0 complete and color 0 complete: color 0 sits at column \<open>r\<close> of row
  \<open>r\<close>, where \<open>add_tile_to_scoreboard\<close> puts it.
\<close>

definition color0_wall :: "int list list" where
  "color0_wall =
     [[1, 1, 1, 1, 1], [0, 1, 0, 0, 0], [0, 0, 1, 0, 0], [0, 0, 0, 1, 0], [0, 0, 0, 0, 1]]"

definition color0_game :: game where
  "color0_game =
     example_game\<lparr>board_p1 := color0_wall,
                   drawing_pit := replicate 6 [0, 0, 0, 0, 0],
                   is_done_phase := True, gameover := True\<rparr>"

text \<open>
  The end-game bonus in the words of the specification: 2 for each fully set row, 5 for
  each fully set column, 7 for each color whose five cells \<open>(r, c)\<close> with
  \<open>(c - r) mod 5 = color\<close> are all set.
\<close>

definition cell_set :: "int list list \<Rightarrow> nat \<Rightarrow> nat \<Rightarrow> bool" where
  "cell_set wall r c = (wall ! r ! c = 1)"

definition spec_final_bonus :: "int list list \<Rightarrow> int" where
  "spec_final_bonus wall =
     2 * int (length (filter (\<lambda>r. list_all (\<lambda>c. cell_set wall r c) [0..<5]) [0..<5]))
     + 5 * int (length (filter (\<lambda>c. list_all (\<lambda>r. cell_set wall r c) [0..<5]) [0..<5]))
     + 7 * int (length (filter (\<lambda>color. list_all (\<lambda>r. cell_set wall r ((color + r) mod 5)) [0..<5])
                          [0..<5]))"

text \<open>
  A round about to be scored: player 1 has filled row 3 with color 2 and holds the wall
  cells (2, 0), (3, 1) and (4, 0).
\<close>

definition scoring_game :: game where
  "scoring_game =
     example_game\<lparr>rows_p1 := [[0], [0, 0], [0, 0, 0], [3, 3, 3, 3], [0, 0, 0, 0, 0]],
                   board_p1 := [[0, 0, 0, 0, 0], [0, 0, 0, 0, 0], [1, 0, 0, 0, 0],
                                [0, 1, 0, 0, 0], [1, 0, 0, 0, 0]],
                   drawing_pit := replicate 6 [0, 0, 0, 0, 0]\<rparr>"

text \<open>
  The cost of a penalty track as the rules state it: an occupied slot costs 1 at the
  indices 0 and 1, 2 at the indices 2 to 4 and 3 at the indices 5 and 6.  It is written
  independently of \<open>calculate_penality\<close>, as a sum over the seven slots.
\<close>

definition spec_slot_cost :: "nat \<Rightarrow> int" where
  "spec_slot_cost i = (if i \<le> 1 then 1 else if i \<le> 4 then 2 else 3)"

definition spec_penalty_total :: "int list \<Rightarrow> int" where
  "spec_penalty_total row
     = sum_list (map (\<lambda>i. if row ! i \<noteq> 0 then spec_slot_cost i else 0) [0..<7])"

text \<open>
  The state of \<open>single_color_game\<close> after the actions 0, 37, 74 and 111: player 1 has
  filled the rows 0 and 2 and holds four penalty tiles (cost 6), so that round scoring
  gives 2 points and the penalty more than takes them back.
\<close>

definition mid_round_game :: game where
  "mid_round_game =
     \<lparr>p1_score = 0, p2_score = 0, player_turn = P1, initial_player = P1,
      new_first_player = True, board_p1 = zeros55, board_p2 = zeros55,
      rows_p1 = [[1], [0, 0], [3, 3, 3], [0, 0, 0, 0], [0, 0, 0, 0, 0]],
      rows_p2 = [[0], [2, 2], [0, 0, 0], [4, 4, 4, 4], [0, 0, 0, 0, 0]],
      penalty_row_p1 = [1, 1, 1, 1, 0, 0, 0], penalty_row_p2 = [1, 1, 0, 0, 0, 0, 0],
      drawing_pit = [[0, 0, 0, 0, 0], [0, 0, 0, 0, 0], [0, 0, 0, 0, 0], [0, 0, 0, 0, 0],
                     [0, 0, 0, 0, 4], [0, 0, 0, 0, 0]],
      gameover = False, is_done_phase = False,
      inserted_tile_in_column_for_action = 4, penality_for_action = 0\<rparr>"

section \<open>Theorems\<close>

lemma mod30_div6: "((a::int) mod 30) div 6 = (a div 6) mod 5"
proof -
  have "a mod 30 = a mod (6 * 5)" by simp
  also have "\<dots> = 6 * ((a div 6) mod 5) + a mod 6" by (rule zmod_zmult2_eq) simp
  finally have "(a mod 30) div 6 = (a mod 6 + 6 * ((a div 6) mod 5)) div 6"
    by (simp add: add.commute)
  also have "\<dots> = (a div 6) mod 5" by (simp only: div_mult_self2)
  finally show ?thesis .
qed

lemma decode_in_range:
  assumes "0 \<le> a"
  shows "from_action_to_tuple_action a = spec_decode a"
proof -
  have "a < 6 \<Longrightarrow> a mod 6 = a \<and> a div 6 = 0 \<and> a div 30 = 0"
    using assms by simp
  moreover have "a < 30 \<Longrightarrow> a div 30 = 0 \<and> (a div 6) mod 5 = a div 6"
    using assms by simp
  ultimately show ?thesis
    unfolding from_action_to_tuple_action_def spec_decode_def
    by (auto simp: mod30_div6)
qed

lemma encode_div6:
  assumes "0 \<le> (pool::int)" "pool < 6"
  shows "(pool + color * 6 + target * 30) div 6 = color + target * 5"
proof -
  have "pool + color * 6 + target * 30 = pool + 6 * (color + target * 5)" by simp
  then show ?thesis using assms by (simp only: div_mult_self2 div_pos_pos_trivial)
qed

lemma encode_mod6:
  assumes "0 \<le> (pool::int)" "pool < 6"
  shows "(pool + color * 6 + target * 30) mod 6 = pool"
proof -
  have "pool + color * 6 + target * 30 = pool + 6 * (color + target * 5)" by simp
  then show ?thesis using assms by (simp only: mod_mult_self2 mod_pos_pos_trivial)
qed

lemma encode_div30:
  assumes "0 \<le> (pool::int)" "pool < 6" "0 \<le> color" "color < 5"
  shows "(pool + color * 6 + target * 30) div 30 = target"
proof -
  have "pool + color * 6 + target * 30 = (pool + color * 6) + 30 * target" by simp
  moreover have "0 \<le> pool + color * 6" "pool + color * 6 < 30" using assms by auto
  ultimately show ?thesis by (simp only: div_mult_self2 div_pos_pos_trivial)
qed

text \<open>
  C7.  For every triple with pool in [0,6), color in [0,5) and target in [0,6), decoding
  the encoding gives the triple back; the encoding is \<open>pool + color*6 + target*30\<close> and
  on these ids the decoder is \<open>(id mod 6, (id div 6) mod 5, id div 30)\<close>.
\<close>

theorem codec_roundtrip:
  assumes "0 \<le> pool" "pool < 6" "0 \<le> color" "color < 5" "0 \<le> target" "target < 6"
  shows "from_action_to_tuple_action (from_tuple_action_to_action pool color target)
           = (pool, color, target)
       \<and> from_tuple_action_to_action pool color target = pool + color * 6 + target * 30
       \<and> from_action_to_tuple_action (from_tuple_action_to_action pool color target)
           = spec_decode (from_tuple_action_to_action pool color target)"
proof -
  let ?a = "pool + color * 6 + target * 30"
  have r: "0 \<le> ?a" using assms by auto
  have e: "from_tuple_action_to_action pool color target = ?a"
    by (simp add: from_tuple_action_to_action_def)
  have d: "from_action_to_tuple_action ?a = spec_decode ?a"
    using r by (rule decode_in_range)
  have "?a mod 6 = pool" using assms by (simp only: encode_mod6)
  moreover have "(?a div 6) mod 5 = color" using assms by (simp add: encode_div6)
  moreover have "?a div 30 = target" using assms by (simp only: encode_div30)
  ultimately have "spec_decode ?a = (pool, color, target)"
    unfolding spec_decode_def by (simp only:)
  with e d show ?thesis by simp
qed

theorem codec_roundtrip_witness:
  "from_action_to_tuple_action (from_tuple_action_to_action 5 4 5) = (5, 4, 5)
   \<and> from_tuple_action_to_action 5 4 5 = 179"
  using codec_roundtrip [of 5 4 5] by (simp add: from_tuple_action_to_action_def)

section \<open>Indexing and loops\<close>

lemma norm_index_nat: "k < n \<Longrightarrow> norm_index n (int k) = Some k"
  by (simp add: norm_index_def)

lemma norm_index_less: "norm_index n i = Some k \<Longrightarrow> k < n"
  by (auto simp: norm_index_def split: if_splits)

lemma norm_index_nonneg: "0 \<le> i \<Longrightarrow> norm_index n i = Some k \<Longrightarrow> k = nat i \<and> i < int n"
  by (auto simp: norm_index_def split: if_splits)

lemma getitem_nat: "k < length xs \<Longrightarrow> getitem xs (int k) = Some (xs ! k)"
  by (simp add: getitem_def norm_index_nat)

lemma setitem_nat: "k < length xs \<Longrightarrow> setitem xs (int k) v = Some (xs[k := v])"
  by (simp add: setitem_def norm_index_nat)

lemma getitem_Some:
  "getitem xs i = Some v \<Longrightarrow> \<exists>k. norm_index (length xs) i = Some k \<and> k < length xs \<and> v = xs ! k"
  by (auto simp: getitem_def dest: norm_index_less)

lemma setitem_Some:
  "setitem xs i v = Some ys \<Longrightarrow>
     \<exists>k. norm_index (length xs) i = Some k \<and> k < length xs \<and> ys = xs[k := v]"
  by (auto simp: setitem_def dest: norm_index_less)

lemma setitem_length: "setitem xs i v = Some ys \<Longrightarrow> length ys = length xs"
  by (auto dest: setitem_Some)

lemma getitem2_nat:
  "k < length xss \<Longrightarrow> l < length (xss ! k) \<Longrightarrow> getitem2 xss (int k) (int l) = Some (xss ! k ! l)"
  by (simp add: getitem2_def getitem_nat)

lemma setitem2_nat:
  "k < length xss \<Longrightarrow> l < length (xss ! k) \<Longrightarrow>
     setitem2 xss (int k) (int l) v = Some (xss[k := (xss ! k)[l := v]])"
  by (simp add: setitem2_def getitem_nat setitem_nat)

lemma setitem2_Some:
  "setitem2 xss i j v = Some yss \<Longrightarrow>
     \<exists>k l. norm_index (length xss) i = Some k \<and> k < length xss
          \<and> norm_index (length (xss ! k)) j = Some l \<and> l < length (xss ! k)
          \<and> yss = xss[k := (xss ! k)[l := v]]"
  by (auto simp: setitem2_def split: bind_splits dest!: getitem_Some setitem_Some)

lemma map_length_update:
  "k < length xss \<Longrightarrow> length r = length (xss ! k) \<Longrightarrow> map length (xss[k := r]) = map length xss"
  by (simp add: map_update list_update_same_conv)

lemma setitem2_shape: "setitem2 xss i j v = Some yss \<Longrightarrow> map length yss = map length xss"
  by (auto dest!: setitem2_Some simp: map_length_update)

lemma discard_tiles_shape:
  "discard_tiles dp p is = Some dp' \<Longrightarrow> map length dp' = map length dp"
proof (induction "is" arbitrary: dp)
  case Nil then show ?case by simp
next
  case (Cons i "is")
  then show ?case
    by (auto split: bind_splits dest!: setitem2_shape)
qed

lemma penalty_loop_length:
  "penalty_loop row pfa n is = Some (row', pfa', n') \<Longrightarrow> length row' = length row"
proof (induction "is" arbitrary: row pfa n)
  case Nil then show ?case by simp
next
  case (Cons i "is")
  then show ?case
    by (auto split: bind_splits if_splits dest!: setitem_length)
qed

lemma fill_loop_shape:
  "fill_loop rows c t ins n is = Some (rows', ins', n') \<Longrightarrow> map length rows' = map length rows"
proof (induction "is" arbitrary: rows ins n)
  case Nil then show ?case by simp
next
  case (Cons i "is")
  then show ?case
    by (auto split: bind_splits if_splits dest!: setitem2_shape)
qed

lemma clear_loop_shape:
  "clear_loop rows r is = Some rows' \<Longrightarrow> map length rows' = map length rows"
proof (induction "is" arbitrary: rows)
  case Nil then show ?case by simp
next
  case (Cons i "is")
  then show ?case
    by (auto split: bind_splits dest!: setitem2_shape)
qed

lemma takeWhile_nonzero_prefix:
  "(u::int) \<noteq> 0 \<Longrightarrow> takeWhile (\<lambda>e. e \<noteq> 0) (replicate a u @ replicate b 0) = replicate a u"
  by (induction a) simp_all

lemma dropWhile_nonzero_prefix:
  "(u::int) \<noteq> 0 \<Longrightarrow> dropWhile (\<lambda>e. e \<noteq> 0) (replicate a u @ replicate b 0) = replicate b 0"
  by (induction a) simp_all

lemma staging_ok_replicate:
  assumes "u \<noteq> 0"
  shows "staging_ok (replicate a u @ replicate b 0)"
  unfolding staging_ok_def takeWhile_nonzero_prefix[OF assms] dropWhile_nonzero_prefix[OF assms]
  by (cases a) (simp_all add: list_all_iff)

lemma all_same_replicate: "list_all (\<lambda>e. e = x) xs \<Longrightarrow> xs = replicate (length xs) x"
  by (induction xs) simp_all

lemma staging_ok_form:
  assumes "staging_ok row"
  shows "\<exists>a u. u \<noteq> 0 \<and> a \<le> length row \<and> row = replicate a u @ replicate (length row - a) 0"
proof -
  let ?tw = "takeWhile (\<lambda>e. e \<noteq> 0) row" and ?dw = "dropWhile (\<lambda>e. e \<noteq> 0) row"
  have split: "?tw @ ?dw = row" by simp
  have dw: "?dw = replicate (length ?dw) 0"
    using assms by (intro all_same_replicate) (simp add: staging_ok_def)
  have tw: "?tw = replicate (length ?tw) (hd row)"
    using assms by (intro all_same_replicate) (simp add: staging_ok_def)
  have "length (?tw @ ?dw) = length row" by (simp only: takeWhile_dropWhile_id)
  then have "length ?tw + length ?dw = length row" by (simp only: length_append)
  then have len: "length ?dw = length row - length ?tw" and le: "length ?tw \<le> length row"
    by simp_all
  have eq: "row = replicate (length ?tw) (hd row) @ replicate (length row - length ?tw) 0"
    using split tw dw len by (simp only:)
  show ?thesis
  proof (cases "?tw = []")
    case True
    then have "row = replicate 0 (1::int) @ replicate (length row - 0) 0"
      using eq by simp
    then show ?thesis by (intro exI[of _ 0] exI[of _ 1]) simp
  next
    case False
    then obtain x xs where c: "row = x # xs" "x \<noteq> 0"
      by (cases row) (auto split: if_splits)
    then have "hd row \<noteq> 0" by simp
    then show ?thesis using eq le by blast
  qed
qed

lemma fill_row_length [simp]: "length (fill_row row t n) = length row"
  by (induction row arbitrary: n) auto

lemma fill_row_nonzero:
  "u \<noteq> 0 \<Longrightarrow> fill_row (replicate a u @ xs) t n = replicate a u @ fill_row xs t n"
  by (induction a) auto

lemma fill_row_zeros:
  "fill_row (replicate b 0) t n
     = replicate (min b (nat n)) (t + 1) @ replicate (b - min b (nat n)) 0"
proof (induction b arbitrary: n)
  case 0 then show ?case by simp
next
  case (Suc b)
  show ?case
  proof (cases "n > 0")
    case True
    then have "nat n = Suc (nat (n - 1))" by simp
    then have "min (Suc b) (nat n) = Suc (min b (nat (n - 1)))" by simp
    with True Suc[of "n - 1"] show ?thesis by simp
  next
    case False
    then have "nat n = 0" by simp
    with False Suc[of n] show ?thesis by simp
  qed
qed

lemma staging_ok_fill_row:
  assumes ok: "staging_ok row" and t: "t + 1 \<noteq> 0"
    and first: "row = [] \<or> hd row = 0 \<or> hd row = t + 1"
  shows "staging_ok (fill_row row t n)"
proof -
  from staging_ok_form[OF ok] obtain a u where
    u: "u \<noteq> 0" and a: "a \<le> length row"
    and row: "row = replicate a u @ replicate (length row - a) 0" by blast
  define b where "b = length row - a"
  define m where "m = min b (nat n)"
  have row': "row = replicate a u @ replicate b 0" using row b_def by simp
  have "fill_row (replicate a u @ replicate b 0) t n
          = replicate a u @ replicate m (t + 1) @ replicate (b - m) 0"
    using fill_row_nonzero[OF u, of a "replicate b 0" t n] fill_row_zeros[of b t n] m_def
    by simp
  then have fr: "fill_row row t n = replicate a u @ replicate m (t + 1) @ replicate (b - m) 0"
    using row' by simp
  show ?thesis
  proof (cases a)
    case 0
    then have "fill_row row t n = replicate m (t + 1) @ replicate (b - m) 0"
      using fr by simp
    then show ?thesis using staging_ok_replicate[OF t] by simp
  next
    case (Suc a')
    then have "row = u # (replicate a' u @ replicate b 0)" using row' by simp
    then have "hd row = u" "row \<noteq> []" by simp_all
    then have "u = t + 1" using first u by auto
    then have "fill_row row t n = replicate (a + m) (t + 1) @ replicate (b - m) 0"
      using fr by (simp add: replicate_add)
    then show ?thesis using staging_ok_replicate[OF t] by simp
  qed
qed

lemma fill_loop_rows:
  assumes "k < length rows" "j + m = length (rows ! k)"
  shows "\<exists>ins' n'. fill_loop rows (int k) t ins n (map int [j..<j + m])
           = Some (rows[k := take j (rows ! k) @ fill_row (drop j (rows ! k)) t n], ins', n')"
  using assms
proof (induction m arbitrary: j rows ins n)
  case 0
  then show ?case by simp
next
  case (Suc m)
  define row where "row = rows ! k"
  have j: "j < length row" using Suc.prems row_def by simp
  have upt: "[j..<j + Suc m] = j # [Suc j..<Suc j + m]"
    by (simp add: upt_conv_Cons)
  have g: "getitem2 rows (int k) (int j) = Some (row ! j)"
    using Suc.prems j row_def by (simp add: getitem2_nat)
  have dr: "drop j row = row ! j # drop (Suc j) row"
    using j by (simp add: Cons_nth_drop_Suc)
  show ?case
  proof (cases "row ! j = 0 \<and> n > 0")
    case True
    define rows' where "rows' = rows[k := row[j := t + 1]]"
    have s: "setitem2 rows (int k) (int j) (t + 1) = Some rows'"
      using Suc.prems j row_def rows'_def by (simp add: setitem2_nat)
    have k': "k < length rows'" using Suc.prems rows'_def by simp
    have row': "rows' ! k = row[j := t + 1]" using Suc.prems rows'_def by simp
    have len': "Suc j + m = length (rows' ! k)" using Suc.prems row' row_def by simp
    from Suc.IH[OF k' len', of "ins + 1" "n - 1"] obtain ins' n' where
      ih: "fill_loop rows' (int k) t (ins + 1) (n - 1) (map int [Suc j..<Suc j + m])
             = Some (rows'[k := take (Suc j) (rows' ! k) @ fill_row (drop (Suc j) (rows' ! k)) t (n - 1)], ins', n')"
      by blast
    have tk: "take (Suc j) (row[j := t + 1]) = take j row @ [t + 1]"
      using j by (simp add: take_Suc_conv_app_nth)
    have "take (Suc j) (rows' ! k) @ fill_row (drop (Suc j) (rows' ! k)) t (n - 1)
            = take j row @ fill_row (drop j row) t n"
      using True tk dr unfolding row' by simp
    then have ih': "fill_loop rows' (int k) t (ins + 1) (n - 1) (map int [Suc j..<Suc j + m])
             = Some (rows[k := take j row @ fill_row (drop j row) t n], ins', n')"
      using ih rows'_def by simp
    have "fill_loop rows (int k) t ins n (map int (j # [Suc j..<Suc j + m]))
            = Some (rows[k := take j row @ fill_row (drop j row) t n], ins', n')"
      using True g s ih' by simp
    then show ?thesis unfolding upt row_def by blast
  next
    case False
    have len': "Suc j + m = length (rows ! k)" using Suc.prems by simp
    from Suc.IH[OF Suc.prems(1) len', of ins n] obtain ins' n' where
      ih: "fill_loop rows (int k) t ins n (map int [Suc j..<Suc j + m])
             = Some (rows[k := take (Suc j) row @ fill_row (drop (Suc j) row) t n], ins', n')"
      unfolding row_def by blast
    have "take (Suc j) row @ fill_row (drop (Suc j) row) t n
            = take j row @ fill_row (drop j row) t n"
      using False dr j by (auto simp: take_Suc_conv_app_nth)
    then have "fill_loop rows (int k) t ins n (map int (j # [Suc j..<Suc j + m]))
            = Some (rows[k := take j row @ fill_row (drop j row) t n], ins', n')"
      using False g ih by auto
    then show ?thesis unfolding upt row_def by blast
  qed
qed

lemma clear_loop_rows:
  assumes "k < length rows" "j + m = length (rows ! k)"
  shows "clear_loop rows (int k) (map int [j..<j + m])
           = Some (rows[k := take j (rows ! k) @ replicate m 0])"
  using assms
proof (induction m arbitrary: j rows)
  case 0
  then show ?case by simp
next
  case (Suc m)
  define row where "row = rows ! k"
  have j: "j < length row" using Suc.prems row_def by simp
  have upt: "[j..<j + Suc m] = j # [Suc j..<Suc j + m]"
    by (simp add: upt_conv_Cons)
  define rows' where "rows' = rows[k := row[j := 0]]"
  have s: "setitem2 rows (int k) (int j) 0 = Some rows'"
    using Suc.prems j row_def rows'_def by (simp add: setitem2_nat)
  have k': "k < length rows'" using Suc.prems rows'_def by simp
  have row': "rows' ! k = row[j := 0]" using Suc.prems rows'_def by simp
  have len': "Suc j + m = length (rows' ! k)" using Suc.prems row' row_def by simp
  have tk: "take (Suc j) (row[j := 0]) = take j row @ [0]"
    using j by (simp add: take_Suc_conv_app_nth)
  have "clear_loop rows' (int k) (map int [Suc j..<Suc j + m])
          = Some (rows'[k := take (Suc j) (rows' ! k) @ replicate m 0])"
    by (rule Suc.IH[OF k' len'])
  moreover have "take (Suc j) (rows' ! k) @ replicate m 0 = take j row @ replicate (Suc m) 0"
    by (simp only: row' tk) simp
  moreover have "\<And>x. rows'[k := x] = rows[k := x]" by (simp add: rows'_def)
  ultimately have "clear_loop rows' (int k) (map int [Suc j..<Suc j + m])
          = Some (rows[k := take j row @ replicate (Suc m) 0])"
    by (simp only:)
  then have "clear_loop rows (int k) (map int (j # [Suc j..<Suc j + m]))
          = Some (rows[k := take j row @ replicate (Suc m) 0])"
    using s by simp
  then show ?case unfolding upt row_def .
qed

section \<open>Preservation of the invariant\<close>

lemma shape_nth:
  assumes "map length xss = ls" "k < length ls"
  shows "length (xss ! k) = ls ! k" "k < length xss"
proof -
  have l: "length xss = length ls" using arg_cong[OF assms(1), of length] by simp
  show "k < length xss" using l assms(2) by simp
  then have "map length xss ! k = length (xss ! k)" by (rule nth_map)
  then show "length (xss ! k) = ls ! k" using assms(1) by simp
qed

lemma five_cases: "k < 5 \<Longrightarrow> k = 0 \<or> k = 1 \<or> k = 2 \<or> k = 3 \<or> k = (4::nat)"
  by arith

lemma rows_shape_nth:
  assumes "map length rows = [1, 2, 3, 4, 5]" "k < 5"
  shows "length (rows ! k) = k + 1" "k < length rows" "length rows = 5"
proof -
  have l: "length rows = 5" using arg_cong[OF assms(1), of length] by simp
  show "length rows = 5" by (rule l)
  show "k < length rows" using l assms(2) by simp
  have "length (rows ! k) = [1, 2, 3, 4, 5] ! k"
    using shape_nth(1)[OF assms(1)] assms(2) by simp
  then show "length (rows ! k) = k + 1"
    using five_cases[OF assms(2)] by auto
qed

lemma shape_length: "map length xss = ls \<Longrightarrow> length xss = length ls"
  by (drule arg_cong[where f = length]) simp

lemma list_all_update: "list_all P xs \<Longrightarrow> P v \<Longrightarrow> list_all P (xs[k := v])"
  by (induction xs arbitrary: k) (auto split: nat.splits)

lemma range_int_Suc: "range_int (int k + 1) = map int [0..<0 + (k + 1)]"
  by (simp add: range_int_def nat_add_distrib)

lemma insert_penalty_Some:
  assumes "insert_tiles_in_penalty_column s n pl = Some s'"
  shows "\<exists>row pfa. s' = (set_penalty s pl row)\<lparr>penality_for_action := pfa\<rparr>
           \<and> length row = length (penalty_of s pl)"
  using assms
  by (auto simp: insert_tiles_in_penalty_column_def split: bind_splits dest: penalty_loop_length)

lemma insert_penalty_inv:
  assumes "insert_tiles_in_penalty_column s n pl = Some s'" "game_inv s"
  shows "game_inv s'" "rows_p1 s' = rows_p1 s" "rows_p2 s' = rows_p2 s"
  using insert_penalty_Some[OF assms(1)] assms(2)
  by (cases pl; auto simp: game_inv_def wf_shape_def set_penalty_def penalty_of_def)+

lemma take_tile_inv:
  assumes "take_tile_from_pit s p t pl = Some (d, s')" "game_inv s"
  shows "game_inv s'" "rows_p1 s' = rows_p1 s" "rows_p2 s' = rows_p2 s"
proof -
  from assms(1) obtain dp where
    dp: "map length dp = map length (drawing_pit s)"
    and s': "s' = (if \<not> new_first_player s
               then s\<lparr>new_first_player := False, initial_player := pl\<rparr> else s)\<lparr>drawing_pit := dp\<rparr>"
    by (auto simp: take_tile_from_pit_def Let_def split: bind_splits if_splits
             dest!: setitem2_shape discard_tiles_shape)
  show "game_inv s'" "rows_p1 s' = rows_p1 s" "rows_p2 s' = rows_p2 s"
    using assms(2) dp unfolding s' by (auto simp: game_inv_def wf_shape_def)
qed

lemma valid_move_TrueD:
  assumes "valid_move s pl p t c = Some True" "c \<noteq> 5"
  shows "\<exists>cell r0. getitem2 (board_of s pl) c ((t + c) mod 5) = Some cell
           \<and> getitem2 (rows_of s pl) c 0 = Some r0 \<and> (r0 = 0 \<or> r0 = t + 1)"
  using assms by (auto simp: valid_move_def split: bind_splits if_splits)

lemma getitem2_row_index:
  assumes "getitem2 xss c j = Some v" "0 \<le> c"
  shows "nat c < length xss" "getitem (xss ! nat c) j = Some v"
proof -
  from assms(1) obtain r where r: "getitem xss c = Some r" "getitem r j = Some v"
    by (auto simp: getitem2_def split: bind_splits)
  from getitem_Some[OF r(1)] obtain k where
    k: "norm_index (length xss) c = Some k" "k < length xss" "r = xss ! k" by blast
  have "k = nat c" using norm_index_nonneg[OF assms(2) k(1)] by simp
  then show "nat c < length xss" "getitem (xss ! nat c) j = Some v"
    using k r by simp_all
qed

lemma insert_column_inv:
  assumes ins: "insert_tiles_in_column s t d c pl = Some s'"
    and inv: "game_inv s"
    and c: "0 \<le> c"
    and t: "t + 1 \<noteq> 0"
    and first: "c \<noteq> 5 \<longrightarrow> (\<exists>r0. getitem2 (rows_of s pl) c 0 = Some r0 \<and> (r0 = 0 \<or> r0 = t + 1))"
  shows "game_inv s'"
proof (cases "c = 5")
  case True
  then show ?thesis using ins inv insert_penalty_inv(1) by (simp add: insert_tiles_in_column_def)
next
  case False
  define rows where "rows = rows_of s pl"
  define k where "k = nat c"
  from first False obtain r0 where
    r0: "getitem2 rows c 0 = Some r0" "r0 = 0 \<or> r0 = t + 1" unfolding rows_def by blast
  have shape: "map length rows = [1, 2, 3, 4, 5]"
    using inv by (cases pl) (simp_all add: rows_def rows_of_def game_inv_def wf_shape_def)
  have ok: "list_all staging_ok rows"
    using inv by (cases pl) (simp_all add: rows_def rows_of_def game_inv_def)
  have len5: "length rows = 5" using shape_length[OF shape] by simp
  have k: "k < 5" and ck: "c = int k"
    using getitem2_row_index(1)[OF r0(1) c] len5 c by (simp_all add: k_def)
  have lenk: "length (rows ! k) = k + 1" and klt: "k < length rows"
    using rows_shape_nth[OF shape k] by simp_all
  have hd0: "hd (rows ! k) = r0"
    using getitem2_row_index(2)[OF r0(1) c] lenk
    by (cases "rows ! k") (auto simp: k_def getitem_def norm_index_def)
  from fill_loop_rows[OF klt, of 0 "k + 1" t 0 d] lenk obtain ins' n' where
    fl: "fill_loop rows (int k) t 0 d (map int [0..<0 + (k + 1)])
           = Some (rows[k := fill_row (rows ! k) t d], ins', n')"
    by auto
  define rows' where "rows' = rows[k := fill_row (rows ! k) t d]"
  have step: "insert_tiles_in_penalty_column
            ((set_rows s pl rows')\<lparr>inserted_tile_in_column_for_action := ins'\<rparr>) n' pl = Some s'"
    using ins False fl unfolding insert_tiles_in_column_def rows_def[symmetric] ck range_int_Suc rows'_def
    by simp
  have "staging_ok (rows ! k)" using ok klt by (simp add: list_all_length)
  then have "staging_ok (fill_row (rows ! k) t d)"
    using staging_ok_fill_row[OF _ t, of "rows ! k" d] r0(2) hd0 by simp
  then have ok': "list_all staging_ok rows'"
    unfolding rows'_def using ok by (rule list_all_update[rotated])
  have shape': "map length rows' = [1, 2, 3, 4, 5]"
    unfolding rows'_def using shape klt by (simp add: map_length_update)
  have "game_inv ((set_rows s pl rows')\<lparr>inserted_tile_in_column_for_action := ins'\<rparr>)"
    using inv ok' shape'
    by (cases pl) (simp_all add: game_inv_def wf_shape_def set_rows_def)
  then show ?thesis using insert_penalty_inv(1)[OF step] by simp
qed

lemma game_inv_flags [simp]:
  "game_inv (s\<lparr>penality_for_action := a\<rparr>) = game_inv s"
  "game_inv (s\<lparr>player_turn := b\<rparr>) = game_inv s"
  "game_inv (s\<lparr>initial_player := c\<rparr>) = game_inv s"
  "game_inv (s\<lparr>new_first_player := d\<rparr>) = game_inv s"
  "game_inv (s\<lparr>is_done_phase := e\<rparr>) = game_inv s"
  "game_inv (s\<lparr>gameover := f\<rparr>) = game_inv s"
  "game_inv (s\<lparr>inserted_tile_in_column_for_action := g\<rparr>) = game_inv s"
  by (simp_all add: game_inv_def wf_shape_def)

lemma rows_of_eq: "rows_p1 s' = rows_p1 s \<Longrightarrow> rows_p2 s' = rows_p2 s \<Longrightarrow> rows_of s' pl = rows_of s pl"
  by (cases pl) (simp_all add: rows_of_def)

lemma play_turn_invalid:
  assumes "valid_move (s\<lparr>penality_for_action := 0\<rparr>) pl p t c = Some False"
  shows "play_turn s pl p t c = Some (False, s\<lparr>penality_for_action := 0\<rparr>)"
  using assms by (simp add: play_turn_def Let_def)

lemma play_turn_raises:
  assumes "valid_move (s\<lparr>penality_for_action := 0\<rparr>) pl p t c = None"
  shows "play_turn s pl p t c = None"
  using assms by (simp add: play_turn_def Let_def)

lemma play_turn_valid:
  assumes "valid_move (s\<lparr>penality_for_action := 0\<rparr>) pl p t c = Some True"
  shows "play_turn s pl p t c = do {
       (drawed_tiles, s1) \<leftarrow> take_tile_from_pit (s\<lparr>penality_for_action := 0\<rparr>) p t pl;
       s2 \<leftarrow> (if p = 5 \<and> new_first_player s1
              then insert_tiles_in_penalty_column
                     (s1\<lparr>initial_player := pl, new_first_player := False\<rparr>) 1 pl
              else Some s1);
       s3 \<leftarrow> (if c \<noteq> 5
              then insert_tiles_in_column s2 t drawed_tiles c pl
              else insert_tiles_in_penalty_column s2 drawed_tiles pl);
       Some (True, s3\<lparr>player_turn := (if player_turn s3 = P1 then P2 else P1)\<rparr>)
     }"
  unfolding play_turn_def Let_def assms by (simp only: option.case bind.bind_lunit if_True)

lemma bind_SomeE:
  assumes "(m \<bind> f) = Some y"
  obtains x where "m = Some x" "f x = Some y"
  using assms by (cases m) simp_all

lemma play_turn_cases:
  assumes pt: "play_turn s pl p t c = Some (ok, s')"
  obtains (illegal) "valid_move (s\<lparr>penality_for_action := 0\<rparr>) pl p t c = Some False"
            "\<not> ok" "s' = s\<lparr>penality_for_action := 0\<rparr>"
  | (legal) d s1 s2 s3 where
      "valid_move (s\<lparr>penality_for_action := 0\<rparr>) pl p t c = Some True"
      "take_tile_from_pit (s\<lparr>penality_for_action := 0\<rparr>) p t pl = Some (d, s1)"
      "(if p = 5 \<and> new_first_player s1
          then insert_tiles_in_penalty_column
                 (s1\<lparr>initial_player := pl, new_first_player := False\<rparr>) 1 pl
          else Some s1) = Some s2"
      "(if c \<noteq> 5 then insert_tiles_in_column s2 t d c pl
          else insert_tiles_in_penalty_column s2 d pl) = Some s3"
      "ok" "s' = s3\<lparr>player_turn := (if player_turn s3 = P1 then P2 else P1)\<rparr>"
proof (cases "valid_move (s\<lparr>penality_for_action := 0\<rparr>) pl p t c")
  case None
  then show ?thesis using pt play_turn_raises[of s pl p t c] by simp
next
  case (Some b)
  show ?thesis
  proof (cases b)
    case False
    then have vm: "valid_move (s\<lparr>penality_for_action := 0\<rparr>) pl p t c = Some False"
      using Some by simp
    have "\<not> ok" "s' = s\<lparr>penality_for_action := 0\<rparr>"
      using pt play_turn_invalid[OF vm] by simp_all
    then show ?thesis using vm by (rule illegal[rotated 1])
  next
    case True
    then have vm: "valid_move (s\<lparr>penality_for_action := 0\<rparr>) pl p t c = Some True"
      using Some by simp
    note pt' = pt[unfolded play_turn_valid[OF vm]]
    from pt' obtain x where x: "take_tile_from_pit (s\<lparr>penality_for_action := 0\<rparr>) p t pl = Some x"
      and r1: "(case x of (drawed_tiles, s1) \<Rightarrow>
        (if p = 5 \<and> new_first_player s1
              then insert_tiles_in_penalty_column
                     (s1\<lparr>initial_player := pl, new_first_player := False\<rparr>) 1 pl
              else Some s1) \<bind> (\<lambda>s2.
        (if c \<noteq> 5
              then insert_tiles_in_column s2 t drawed_tiles c pl
              else insert_tiles_in_penalty_column s2 drawed_tiles pl) \<bind> (\<lambda>s3.
       Some (True, s3\<lparr>player_turn := (if player_turn s3 = P1 then P2 else P1)\<rparr>)))) = Some (ok, s')"
      by (rule bind_SomeE)
    obtain d s1 where xd: "x = (d, s1)" by (cases x)
    from r1[unfolded xd prod.case] obtain s2 where
      s2: "(if p = 5 \<and> new_first_player s1
              then insert_tiles_in_penalty_column
                     (s1\<lparr>initial_player := pl, new_first_player := False\<rparr>) 1 pl
              else Some s1) = Some s2"
      and r2: "(if c \<noteq> 5
              then insert_tiles_in_column s2 t d c pl
              else insert_tiles_in_penalty_column s2 d pl) \<bind> (\<lambda>s3.
       Some (True, s3\<lparr>player_turn := (if player_turn s3 = P1 then P2 else P1)\<rparr>)) = Some (ok, s')"
      by (rule bind_SomeE)
    from r2 obtain s3 where
      s3: "(if c \<noteq> 5
              then insert_tiles_in_column s2 t d c pl
              else insert_tiles_in_penalty_column s2 d pl) = Some s3"
      and r3: "Some (True, s3\<lparr>player_turn := (if player_turn s3 = P1 then P2 else P1)\<rparr>) = Some (ok, s')"
      by (rule bind_SomeE)
    from r3 have ok: "ok" and s': "s' = s3\<lparr>player_turn := (if player_turn s3 = P1 then P2 else P1)\<rparr>"
      by simp_all
    have tk: "take_tile_from_pit (s\<lparr>penality_for_action := 0\<rparr>) p t pl = Some (d, s1)"
      using x xd by simp
    show ?thesis by (rule legal[OF vm tk s2 s3 ok s'])
  qed
qed

lemma play_turn_inv:
  assumes pt: "play_turn s pl p t c = Some (ok, s')"
    and inv: "game_inv s" and c: "0 \<le> c" and t: "t + 1 \<noteq> 0"
  shows "game_inv s'"
proof -
  define s0 where "s0 = s\<lparr>penality_for_action := 0\<rparr>"
  have inv0: "game_inv s0" using inv by (simp add: s0_def)
  from pt show ?thesis
  proof (cases rule: play_turn_cases)
    case illegal
    then show ?thesis using inv0 by (simp add: s0_def)
  next
    case (legal d s1 s2 s3)
    note vm = legal(1)[folded s0_def] and tk = legal(2)[folded s0_def]
      and s2 = legal(3) and s3 = legal(4) and s' = legal(6)
    have inv1: "game_inv s1" and r1: "rows_of s1 pl = rows_of s0 pl"
      using take_tile_inv[OF tk inv0] rows_of_eq[of s1 s0 pl] by simp_all
    have inv2: "game_inv s2 \<and> rows_of s2 pl = rows_of s0 pl"
    proof (cases "p = 5 \<and> new_first_player s1")
      case True
      then have ip: "insert_tiles_in_penalty_column
                   (s1\<lparr>initial_player := pl, new_first_player := False\<rparr>) 1 pl = Some s2"
        using s2 by simp
      have i1: "game_inv (s1\<lparr>initial_player := pl, new_first_player := False\<rparr>)"
        using inv1 by simp
      have "rows_of s2 pl = rows_of (s1\<lparr>initial_player := pl, new_first_player := False\<rparr>) pl"
        using insert_penalty_inv(2,3)[OF ip i1] by (rule rows_of_eq)
      also have "\<dots> = rows_of s1 pl" by (cases pl) (simp_all add: rows_of_def)
      finally show ?thesis using insert_penalty_inv(1)[OF ip i1] r1 by simp
    next
      case False
      then have "s2 = s1" using s2 by auto
      then show ?thesis using inv1 r1 by simp
    qed
    have "game_inv s3"
    proof (cases "c = 5")
      case True
      then have "insert_tiles_in_penalty_column s2 d pl = Some s3" using s3 by simp
      then show ?thesis using inv2 insert_penalty_inv(1) by blast
    next
      case False
      then have ic: "insert_tiles_in_column s2 t d c pl = Some s3" using s3 by simp
      have "\<exists>r0. getitem2 (rows_of s2 pl) c 0 = Some r0 \<and> (r0 = 0 \<or> r0 = t + 1)"
        using valid_move_TrueD[OF vm False] inv2 by auto
      then have "c \<noteq> 5 \<longrightarrow> (\<exists>r0. getitem2 (rows_of s2 pl) c 0 = Some r0 \<and> (r0 = 0 \<or> r0 = t + 1))"
        by simp
      from insert_column_inv[OF ic _ c t this] inv2 show ?thesis by simp
    qed
    then show ?thesis by (simp add: s')
  qed
qed

lemma update_score_inv: "game_inv s \<Longrightarrow> game_inv (update_score s pl pts)"
  by (cases pl) (simp_all add: update_score_def game_inv_def wf_shape_def)

lemma staging_ok_zeros: "staging_ok (replicate n 0)"
  using staging_ok_replicate[of 1 0 n] by simp

lemma clear_row_result:
  assumes "map length (rows_of s pl) = [1, 2, 3, 4, 5]" "k < 5"
  shows "clear_row s (int k) pl = Some (set_rows s pl ((rows_of s pl)[k := replicate (k + 1) 0]))"
proof -
  have "length (rows_of s pl ! k) = k + 1" "k < length (rows_of s pl)"
    using rows_shape_nth[OF assms] by simp_all
  then have "clear_loop (rows_of s pl) (int k) (map int [0..<0 + (k + 1)])
          = Some ((rows_of s pl)[k := replicate (k + 1) 0])"
    using clear_loop_rows[of k "rows_of s pl" 0 "k + 1"] by simp
  then show ?thesis
    unfolding clear_row_def range_int_Suc by simp
qed

lemma rows_shape_of:
  "game_inv s \<Longrightarrow> map length (rows_of s pl) = [1, 2, 3, 4, 5]"
  by (cases pl) (simp_all add: game_inv_def wf_shape_def rows_of_def)

lemma clear_row_inv:
  assumes "clear_row s (int k) pl = Some s'" "game_inv s" "k < 5"
  shows "game_inv s'"
proof -
  have sh: "map length (rows_of s pl) = [1, 2, 3, 4, 5]" by (rule rows_shape_of[OF assms(2)])
  have kl: "k < length (rows_of s pl)" using rows_shape_nth[OF sh assms(3)] by simp
  have s': "s' = set_rows s pl ((rows_of s pl)[k := replicate (k + 1) 0])"
    using clear_row_result[OF sh assms(3)] assms(1) by simp
  have "length (replicate (k + 1) (0::int)) = length (rows_of s pl ! k)"
    using rows_shape_nth[OF sh assms(3)] by simp
  then have "map length ((rows_of s pl)[k := replicate (k + 1) 0]) = [1, 2, 3, 4, 5]"
    using sh kl map_length_update[of k "rows_of s pl" "replicate (k + 1) 0"] by simp
  moreover have "list_all staging_ok (rows_of s pl)"
    using assms(2) by (cases pl) (simp_all add: game_inv_def rows_of_def)
  then have "list_all staging_ok ((rows_of s pl)[k := replicate (k + 1) 0])"
    by (rule list_all_update) (rule staging_ok_zeros)
  ultimately show ?thesis
    using assms(2) unfolding s'
    by (cases pl) (simp_all add: game_inv_def wf_shape_def set_rows_def)
qed

lemma add_tile_Some:
  assumes "add_tile_to_scoreboard s tile pl r = Some (pts, s')"
  obtains b where "setitem2 (board_of s pl) r ((tile - 1 + r) mod 5) 1 = Some b"
    "s' = set_board s pl b"
proof -
  from assms[unfolded add_tile_to_scoreboard_def Let_def]
  obtain b where b: "setitem2 (board_of s pl) r ((tile - 1 + r) mod 5) 1 = Some b"
    and r1: "compute_row_point (set_board s pl b) r ((tile - 1 + r) mod 5) pl \<bind> (\<lambda>score_row.
       compute_column_point (set_board s pl b) r ((tile - 1 + r) mod 5) pl \<bind> (\<lambda>score_column.
       Some (1 + score_row + score_column, set_board s pl b))) = Some (pts, s')"
    by (rule bind_SomeE)
  from r1 obtain x where "compute_column_point (set_board s pl b) r ((tile - 1 + r) mod 5) pl \<bind> (\<lambda>score_column.
       Some (1 + x + score_column, set_board s pl b)) = Some (pts, s')"
    by (rule bind_SomeE)
  then obtain y where "Some (1 + x + y, set_board s pl b) = Some (pts, s')"
    by (rule bind_SomeE)
  then have "s' = set_board s pl b" by simp
  with b show ?thesis by (rule that)
qed

lemma add_tile_inv:
  assumes "add_tile_to_scoreboard s tile pl r = Some (pts, s')" "game_inv s"
  shows "game_inv s'"
proof -
  from assms(1) obtain b where
    b: "setitem2 (board_of s pl) r ((tile - 1 + r) mod 5) 1 = Some b" and s': "s' = set_board s pl b"
    by (rule add_tile_Some)
  have "map length b = map length (board_of s pl)" by (rule setitem2_shape[OF b])
  then show ?thesis using assms(2) unfolding s'
    by (cases pl) (simp_all add: game_inv_def wf_shape_def set_board_def board_of_def)
qed

lemma score_row_cases:
  assumes "score_row s pl k = Some s'"
  obtains (skip) "s' = s"
  | (scored) first_elem s1 pts s2 where
      "getitem (rows_of s pl ! k) 0 = Some first_elem"
      "list_all (\<lambda>elem. elem = first_elem \<and> elem \<noteq> 0) (rows_of s pl ! k)"
      "clear_row s (int k) pl = Some s1"
      "add_tile_to_scoreboard s1 first_elem pl (int k) = Some (pts, s2)"
      "s' = update_score s2 pl pts"
proof -
  from assms[unfolded score_row_def Let_def]
  obtain fe where fe: "getitem (rows_of s pl ! k) 0 = Some fe"
    and r: "(if list_all (\<lambda>elem. elem = fe \<and> elem \<noteq> 0) (rows_of s pl ! k)
             then clear_row s (int k) pl \<bind> (\<lambda>s1.
                  add_tile_to_scoreboard s1 fe pl (int k) \<bind> (\<lambda>(partial_score, s2).
                  Some (update_score s2 pl partial_score)))
             else Some s) = Some s'"
    by (rule bind_SomeE)
  show ?thesis
  proof (cases "list_all (\<lambda>elem. elem = fe \<and> elem \<noteq> 0) (rows_of s pl ! k)")
    case False
    then have "s' = s" using r by simp
    then show ?thesis by (rule skip)
  next
    case True
    then have "clear_row s (int k) pl \<bind> (\<lambda>s1.
                  add_tile_to_scoreboard s1 fe pl (int k) \<bind> (\<lambda>(partial_score, s2).
                  Some (update_score s2 pl partial_score))) = Some s'"
      using r by simp
    then obtain s1 where s1: "clear_row s (int k) pl = Some s1"
      and r2: "add_tile_to_scoreboard s1 fe pl (int k) \<bind> (\<lambda>(partial_score, s2).
                  Some (update_score s2 pl partial_score)) = Some s'"
      by (rule bind_SomeE)
    from r2 obtain x where x: "add_tile_to_scoreboard s1 fe pl (int k) = Some x"
      and r3: "(case x of (partial_score, s2) \<Rightarrow> Some (update_score s2 pl partial_score)) = Some s'"
      by (rule bind_SomeE)
    obtain pts s2 where xp: "x = (pts, s2)" by (cases x)
    have "s' = update_score s2 pl pts" using r3 xp by simp
    moreover have "add_tile_to_scoreboard s1 fe pl (int k) = Some (pts, s2)" using x xp by simp
    ultimately show ?thesis using fe True s1 by (intro scored)
  qed
qed

lemma score_row_inv:
  assumes "score_row s pl k = Some s'" "game_inv s" "k < 5"
  shows "game_inv s'"
  using assms(1)
proof (cases rule: score_row_cases)
  case skip
  then show ?thesis using assms(2) by simp
next
  case (scored first_elem s1 pts s2)
  have "game_inv s1" by (rule clear_row_inv[OF scored(3) assms(2,3)])
  then have "game_inv s2" by (rule add_tile_inv[OF scored(4)])
  then show ?thesis unfolding scored(5) by (rule update_score_inv)
qed

lemma score_rows_inv:
  assumes "score_rows s pl ks = Some s'" "game_inv s" "list_all (\<lambda>k. k < 5) ks"
  shows "game_inv s'"
  using assms
proof (induction ks arbitrary: s)
  case Nil then show ?case by simp
next
  case (Cons k ks)
  from Cons.prems(1) obtain s1 where s1: "score_row s pl k = Some s1"
    and r: "score_rows s1 pl ks = Some s'"
    unfolding score_rows.simps by (rule bind_SomeE)
  have "game_inv s1" using score_row_inv[OF s1 Cons.prems(2)] Cons.prems(3) by simp
  then show ?case using Cons.IH[OF r] Cons.prems(3) by simp
qed

lemma calculate_penality_inv:
  assumes "calculate_penality s pl = Some s'" "game_inv s"
  shows "game_inv s'"
proof -
  from assms(1)[unfolded calculate_penality_def]
  obtain pen where "Some (update_score s pl pen) = Some s'" by (rule bind_SomeE)
  then have "s' = update_score s pl pen" by simp
  then show ?thesis using update_score_inv[OF assms(2)] by simp
qed

lemma calculate_score_inv:
  assumes "calculate_score s pl = Some s'" "game_inv s"
  shows "game_inv s'"
proof -
  have "length (rows_of s pl) = 5"
    using shape_length[OF rows_shape_of[OF assms(2)]] by simp
  then have all: "list_all (\<lambda>k. k < 5) [0..<length (rows_of s pl)]"
    by (simp add: list_all_iff)
  from assms(1)[unfolded calculate_score_def]
  obtain s1 where s1: "score_rows s pl [0..<length (rows_of s pl)] = Some s1"
    and cp: "calculate_penality s1 pl = Some s'" by (rule bind_SomeE)
  have "game_inv s1" by (rule score_rows_inv[OF s1 assms(2) all])
  then show ?thesis by (rule calculate_penality_inv[OF cp])
qed

lemma final_bonus_nonneg: "0 \<le> final_bonus b"
  by (simp add: final_bonus_def row_completed_score_def column_completed_score_def
        tile_completed_score_def)

lemma compute_final_points_inv: "game_inv s \<Longrightarrow> game_inv (compute_final_points s)"
  using final_bonus_nonneg[of "board_p1 s"] final_bonus_nonneg[of "board_p2 s"]
  by (simp add: compute_final_points_def game_inv_def wf_shape_def)

lemma is_turn_done_inv: "game_inv (is_turn_done s) = game_inv s"
  by (simp add: is_turn_done_def)

lemma is_game_done_inv: "game_inv (is_game_done s) = game_inv s"
  by (simp add: is_game_done_def is_turn_done_inv Let_def)

lemma score_round_inv:
  assumes "score_round s = Some s'" "game_inv s"
  shows "game_inv s'"
proof (cases "is_done_phase s")
  case False
  then show ?thesis using assms by (simp add: score_round_def)
next
  case True
  then have "calculate_score s P1 \<bind> (\<lambda>sa. calculate_score sa P2 \<bind> (\<lambda>sb.
        Some (if gameover sb then compute_final_points sb else sb))) = Some s'"
    using assms(1) by (simp add: score_round_def)
  then obtain sa where sa: "calculate_score s P1 = Some sa"
    and r: "calculate_score sa P2 \<bind> (\<lambda>sb.
        Some (if gameover sb then compute_final_points sb else sb)) = Some s'"
    by (rule bind_SomeE)
  from r obtain sb where sb: "calculate_score sa P2 = Some sb"
    and r2: "Some (if gameover sb then compute_final_points sb else sb) = Some s'"
    by (rule bind_SomeE)
  have "game_inv sb"
    using calculate_score_inv[OF sb calculate_score_inv[OF sa assms(2)]] .
  then show ?thesis using r2 compute_final_points_inv[of sb] by (cases "gameover sb") auto
qed

lemma decode_ranges:
  "from_action_to_tuple_action a = (p, t, c) \<Longrightarrow> 0 \<le> t \<and> t < 5 \<and> 0 \<le> c"
  by (auto simp: from_action_to_tuple_action_def split: if_splits)

lemma step_cases:
  assumes "step s a = Some (s', r, d)"
  obtains p t c ok s1 ra ca cola erp ecp cc where
    "from_action_to_tuple_action a = (p, t, c)"
    "play_turn s (player_turn s) p t c = Some (ok, s1)"
    "action_analisys s1 (player_turn s) t c = Some (ra, ca, cola, erp, ecp, cc)"
    "score_round (is_game_done (is_turn_done s1)) = Some s'"
    "d = have_winner s'"
    "r = inserted_tile_in_column_for_action s' + erp + ecp - penality_for_action s'"
proof -
  obtain p t c where dec: "from_action_to_tuple_action a = (p, t, c)"
    by (cases "from_action_to_tuple_action a")
  from assms[unfolded step_def Let_def dec prod.case]
  obtain x where x: "play_turn s (player_turn s) p t c = Some x"
    and r1: "(case x of (ok, s1) \<Rightarrow>
        action_analisys s1 (player_turn s) t c \<bind>
        (\<lambda>(row_analisys, column_analisys, color_analisys, expected_row_points,
            expected_column_point, column_completed).
            score_round (is_game_done (is_turn_done s1)) \<bind>
            (\<lambda>s3. Some (s3, inserted_tile_in_column_for_action s3 + expected_row_points
                    + expected_column_point - penality_for_action s3, have_winner s3))))
       = Some (s', r, d)"
    by (rule bind_SomeE)
  obtain ok s1 where xo: "x = (ok, s1)" by (cases x)
  from r1[unfolded xo prod.case]
  obtain y where y: "action_analisys s1 (player_turn s) t c = Some y"
    and r2: "(case y of (row_analisys, column_analisys, color_analisys, expected_row_points,
            expected_column_point, column_completed) \<Rightarrow>
            score_round (is_game_done (is_turn_done s1)) \<bind>
            (\<lambda>s3. Some (s3, inserted_tile_in_column_for_action s3 + expected_row_points
                    + expected_column_point - penality_for_action s3, have_winner s3)))
       = Some (s', r, d)"
    by (rule bind_SomeE)
  obtain ra ca cola erp ecp cc where yo: "y = (ra, ca, cola, erp, ecp, cc)" by (cases y)
  from r2[unfolded yo prod.case]
  obtain s3 where s3: "score_round (is_game_done (is_turn_done s1)) = Some s3"
    and r3: "Some (s3, inserted_tile_in_column_for_action s3 + erp + ecp - penality_for_action s3,
               have_winner s3) = Some (s', r, d)"
    by (rule bind_SomeE)
  from r3 have e: "s' = s3" "d = have_winner s'"
    "r = inserted_tile_in_column_for_action s' + erp + ecp - penality_for_action s'"
    by auto
  show ?thesis
    using dec x[unfolded xo] y[unfolded yo] s3[folded e(1)] e(2,3) by (rule that)
qed

lemma step_inv:
  assumes st: "step s a = Some (s', r, d)" and inv: "game_inv s"
  shows "game_inv s'"
  using st
proof (cases rule: step_cases)
  case (1 p t c ok s1 ra ca cola erp ecp cc)
  have rng: "0 \<le> c" "t + 1 \<noteq> 0" using decode_ranges[OF 1(1)] by auto
  have "game_inv s1" by (rule play_turn_inv[OF 1(2) inv rng])
  then have "game_inv (is_game_done (is_turn_done s1))"
    by (simp add: is_game_done_inv is_turn_done_inv)
  then show ?thesis by (rule score_round_inv[OF 1(4)])
qed

lemma fill_pit_length: "length (fill_pit ds) = 5"
proof -
  have "\<And>pit::int list. length (fold (\<lambda>g pit. pit[g := pit ! g + 1]) ds pit) = length pit"
    by (induction ds) simp_all
  then show ?thesis by (simp add: fill_pit_def)
qed

lemma new_game_inv:
  assumes "valid_draws draws"
  shows "game_inv (new_game draws)"
proof -
  have "length draws = 5" using assms by (simp add: valid_draws_def)
  then have "map length (map fill_pit draws) = replicate 5 5"
    by (simp add: comp_def fill_pit_length map_replicate_const)
  then have "map length (map fill_pit draws @ [[0, 0, 0, 0, 0]]) = [5, 5, 5, 5, 5, 5]"
    by (simp add: numeral_eq_Suc)
  then show ?thesis
    by (simp add: game_inv_def wf_shape_def new_game_def create_drawing_pit_def
          initialize_rows_def zeros55_def staging_ok_def numeral_eq_Suc)
qed

lemma reachable_inv: "reachable s \<Longrightarrow> game_inv s"
proof (induction rule: reachable.induct)
  case (reachable_new draws)
  then show ?case by (rule new_game_inv)
next
  case (reachable_step s action s1 reward d)
  show ?case by (rule step_inv[OF reachable_step(2) reachable_step(3)])
qed

lemma staging_ok_slot0:
  assumes "staging_ok row"
  shows "hd row = 0 \<longrightarrow> list_all (\<lambda>e. e = 0) row" "list_all (\<lambda>e. e = 0 \<or> e = hd row) row"
proof -
  from staging_ok_form[OF assms] obtain a u where
    u: "u \<noteq> 0" and row: "row = replicate a u @ replicate (length row - a) 0" by blast
  define b where "b = length row - a"
  have row': "row = replicate a u @ replicate b 0" using row b_def by simp
  show "hd row = 0 \<longrightarrow> list_all (\<lambda>e. e = 0) row"
    by (subst (1 2) row', cases a) (use u in \<open>simp_all add: list_all_iff\<close>)
  show "list_all (\<lambda>e. e = 0 \<or> e = hd row) row"
    by (subst (1 2) row', cases a) (use u in \<open>auto simp: list_all_iff\<close>)
qed

section \<open>The terminal flag\<close>

text \<open>
  C1.  The claim: the flag \<open>done\<close> returned by \<open>step\<close> is true only when, with all pools
  empty, some wall has a complete row.  The code returns \<open>is_done_phase\<close>: in the
  single-color game the fifth draft empties the pools and \<open>step\<close> returns \<open>done = True\<close>
  although \<open>gameover\<close> is false and neither wall has a complete row.
\<close>

theorem step_done_without_full_row:
  "map_option (\<lambda>(s, d). (d, gameover s, has_full_row (board_p1 s), has_full_row (board_p2 s)))
     (play single_color_game [0, 37, 74, 111, 148] False)
   = Some (True, False, False, False)"
  by code_simp

section \<open>The starting player of the next round\<close>

text \<open>
  C2.  The claim: after the first draw from the center in a round, no later draw changes
  the next round's starting player.  In the example game player 2 is the first to draw
  from the center (action 17), which makes player 2 the next starting player; the next
  draw, by player 1 from factory 1 (action 37), makes it player 1.
\<close>

theorem later_draw_changes_initial_player:
  "map_option (\<lambda>(s, d). initial_player s) (play example_game [0, 17] False) = Some P2
   \<and> map_option (\<lambda>(s, d). initial_player s) (play example_game [0, 17, 37] False) = Some P1"
  by code_simp

section \<open>Illegal moves\<close>

lemma valid_move_penality_for_action:
  "valid_move (s\<lparr>penality_for_action := v\<rparr>) player pit_choice tile_type column_choice
     = valid_move s player pit_choice tile_type column_choice"
  by (cases player) (simp_all add: valid_move_def board_of_def rows_of_def cong: if_cong)

lemma example_first_move: "step example_game 0 = Some (after_first_move, 2, False)"
  by code_simp

text \<open>
  C3, as stated: a move that fails the legality check leaves every field unchanged.
  After the first move of the example game \<open>penality_for_action\<close> is 1; the illegal move
  (factory 0, color 0, row 0) returns false and leaves it 0.
\<close>

theorem play_turn_illegal_counterexample:
  "valid_move after_first_move P2 0 0 0 = Some False
   \<and> play_turn after_first_move P2 0 0 0
       = Some (False, after_first_move\<lparr>penality_for_action := 0\<rparr>)
   \<and> after_first_move\<lparr>penality_for_action := 0\<rparr> \<noteq> after_first_move"
  by code_simp

text \<open>
  C3, amended: a move that fails the legality check makes \<open>play_turn\<close> return false,
  without an exception, and leaves every field unchanged except \<open>penality_for_action\<close>,
  which is reset to 0.
\<close>

theorem play_turn_illegal:
  assumes "valid_move s player pit_choice tile_type column_choice = Some False"
  shows "play_turn s player pit_choice tile_type column_choice
           = Some (False, s\<lparr>penality_for_action := 0\<rparr>)"
  using assms by (simp add: play_turn_def valid_move_penality_for_action)

theorem play_turn_illegal_witness:
  "valid_move after_first_move P2 0 0 0 = Some False
   \<and> play_turn after_first_move P2 0 0 0
       = Some (False, after_first_move\<lparr>penality_for_action := 0\<rparr>)"
proof -
  have v: "valid_move after_first_move P2 0 0 0 = Some False" by code_simp
  from play_turn_illegal [OF v] v show ?thesis by simp
qed

section \<open>The end-game bonus\<close>

text \<open>
  C5.  The claim: the bonus is 2 per complete row, 5 per complete column and 7 per color
  whose cells \<open>(r, c)\<close> with \<open>(c - r) mod 5 = color\<close> are all set.  The code groups the
  cells by \<open>(r + c) mod 5\<close>: on the wall with row 0 and color 0 complete it adds 2 where
  the claim gives 9.
\<close>

theorem final_points_miss_color_bonus:
  "p1_score (compute_final_points color0_game) = p1_score color0_game + 2
   \<and> spec_final_bonus (board_p1 color0_game) = 9"
  by code_simp

section \<open>Action ids out of range\<close>

text \<open>
  C6, as stated: an action id outside [0, 180) is rejected as an illegal move, without
  an index error.  Action 180 decodes to factory 0, color 0, row 6; in the example game
  factory 0 holds color 0, and both the legality check and \<open>step\<close> raise \<open>IndexError\<close>.
\<close>

theorem out_of_range_action_counterexample:
  "from_action_to_tuple_action 180 = (0, 0, 6)
   \<and> valid_move example_game P1 0 0 6 = None
   \<and> step example_game 180 = None"
  by code_simp

section \<open>A reachable example state\<close>

lemma reachable_after_first_move: "reachable after_first_move"
proof -
  have "valid_draws [[0, 0, 1, 2], [1, 1, 1, 1], [2, 3, 4, 4], [0, 1, 2, 3], [4, 4, 4, 4]]"
    by (simp add: valid_draws_def)
  then have "reachable example_game"
    unfolding example_game_def by (rule reachable_new)
  then show ?thesis using example_first_move by (rule reachable_step)
qed

section \<open>Staging rows\<close>

text \<open>
  C10.  In every reachable state each staging row of either player is in order: its
  occupied slots are a prefix of the row, an empty slot 0 means an empty row, and every
  occupied slot holds the value of slot 0.
\<close>

theorem staging_rows_in_order:
  assumes "reachable s"
  shows "list_all staging_ok (rows_p1 s @ rows_p2 s)
       \<and> list_all (\<lambda>row. hd row = 0 \<longrightarrow> list_all (\<lambda>e. e = 0) row) (rows_p1 s @ rows_p2 s)
       \<and> list_all (\<lambda>row. list_all (\<lambda>e. e = 0 \<or> e = hd row) row) (rows_p1 s @ rows_p2 s)"
proof -
  have "game_inv s" by (rule reachable_inv[OF assms])
  then have ok: "list_all staging_ok (rows_p1 s @ rows_p2 s)" by (simp add: game_inv_def)
  then have "\<forall>row \<in> set (rows_p1 s @ rows_p2 s). staging_ok row" by (simp add: list_all_iff)
  then have "\<forall>row \<in> set (rows_p1 s @ rows_p2 s).
      (hd row = 0 \<longrightarrow> list_all (\<lambda>e. e = 0) row) \<and> list_all (\<lambda>e. e = 0 \<or> e = hd row) row"
    using staging_ok_slot0 by blast
  then show ?thesis using ok by (simp add: list_all_iff)
qed

theorem staging_rows_in_order_witness:
  "list_all staging_ok (rows_p1 after_first_move @ rows_p2 after_first_move)
   \<and> rows_p1 after_first_move = [[1], [0, 0], [0, 0, 0], [0, 0, 0, 0], [0, 0, 0, 0, 0]]"
  using staging_rows_in_order[OF reachable_after_first_move]
  by (simp add: after_first_move_def)

section \<open>Legal moves\<close>

lemma getitem_int: "0 \<le> i \<Longrightarrow> i < int (length xs) \<Longrightarrow> getitem xs i = Some (xs ! nat i)"
  by (simp add: getitem_def norm_index_def)

lemma setitem_int: "0 \<le> i \<Longrightarrow> i < int (length xs) \<Longrightarrow> setitem xs i v = Some (xs[nat i := v])"
  by (simp add: setitem_def norm_index_def)

lemma getitem2_int:
  assumes "0 \<le> i" "i < int (length xss)" "0 \<le> j" "j < int (length (xss ! nat i))"
  shows "getitem2 xss i j = Some (xss ! nat i ! nat j)"
  using assms by (simp add: getitem2_def getitem_int)

lemma setitem2_int:
  assumes "0 \<le> i" "i < int (length xss)" "0 \<le> j" "j < int (length (xss ! nat i))"
  shows "setitem2 xss i j v = Some (xss[nat i := (xss ! nat i)[nat j := v]])"
  using assms by (simp add: setitem2_def getitem_int setitem_int)

lemma six_cases: "k < 6 \<Longrightarrow> k = 0 \<or> k = 1 \<or> k = 2 \<or> k = 3 \<or> k = 4 \<or> k = (5::nat)"
  by arith

lemma pit_shape_nth:
  assumes "map length dp = [5, 5, 5, 5, 5, 5]" "k < 6"
  shows "length (dp ! k) = 5" "length dp = 6"
proof -
  show l: "length dp = 6" using shape_length[OF assms(1)] by simp
  have "length (dp ! k) = [5, 5, 5, 5, 5, 5] ! k"
    using shape_nth(1)[OF assms(1)] assms(2) by simp
  then show "length (dp ! k) = 5" using six_cases[OF assms(2)] by auto
qed

lemma board_shape_nth:
  assumes "map length b = [5, 5, 5, 5, 5]" "k < 5"
  shows "length (b ! k) = 5" "length b = 5"
proof -
  show l: "length b = 5" using shape_length[OF assms(1)] by simp
  have "length (b ! k) = [5, 5, 5, 5, 5] ! k"
    using shape_nth(1)[OF assms(1)] assms(2) by simp
  then show "length (b ! k) = 5" using five_cases[OF assms(2)] by auto
qed

lemma pit_get:
  assumes "map length dp = [5, 5, 5, 5, 5, 5]" "0 \<le> i" "i < 6" "0 \<le> j" "j < 5"
  shows "getitem2 dp i j = Some (dp ! nat i ! nat j)"
proof -
  have k: "nat i < 6" using assms by simp
  show ?thesis
    using pit_shape_nth[OF assms(1) k] assms(2-5) by (intro getitem2_int) simp_all
qed

lemma board_get:
  assumes "map length b = [5, 5, 5, 5, 5]" "0 \<le> i" "i < 5" "0 \<le> j" "j < 5"
  shows "getitem2 b i j = Some (b ! nat i ! nat j)"
proof -
  have k: "nat i < 5" using assms by simp
  show ?thesis
    using board_shape_nth[OF assms(1) k] assms(2-5) by (intro getitem2_int) simp_all
qed

lemma rows_get0:
  assumes "map length rows = [1, 2, 3, 4, 5]" "0 \<le> i" "i < 5"
  shows "getitem2 rows i 0 = Some (rows ! nat i ! 0)"
proof -
  have k: "nat i < 5" using assms by simp
  show ?thesis
    using rows_shape_nth[OF assms(1) k] assms(2-3) getitem2_int[of i rows 0] by simp
qed

lemma wf_shape_of:
  assumes "wf_shape s"
  shows "map length (board_of s pl) = [5, 5, 5, 5, 5]"
    "map length (rows_of s pl) = [1, 2, 3, 4, 5]"
    "length (penalty_of s pl) = 7"
    "map length (drawing_pit s) = [5, 5, 5, 5, 5, 5]"
  using assms by (cases pl; simp add: wf_shape_def board_of_def rows_of_def penalty_of_def)+

lemma valid_move_total:
  assumes wf: "wf_shape s" and i: "0 \<le> i" "i < 6" and j: "0 \<le> j" "j < 5"
    and k: "0 \<le> k" "k < 6"
  shows "\<exists>b. valid_move s pl i j k = Some b"
proof -
  have g: "getitem2 (drawing_pit s) i j = Some (drawing_pit s ! nat i ! nat j)"
    by (rule pit_get[OF wf_shape_of(4)[OF wf] i j])
  show ?thesis
  proof (cases "k = 5")
    case True
    then show ?thesis using g by (auto simp: valid_move_def)
  next
    case False
    then have k5: "k < 5" using k by simp
    have m: "0 \<le> (j + k) mod 5" "(j + k) mod 5 < 5" by simp_all
    have b: "getitem2 (board_of s pl) k ((j + k) mod 5)
               = Some (board_of s pl ! nat k ! nat ((j + k) mod 5))"
      by (rule board_get[OF wf_shape_of(1)[OF wf] k(1) k5 m])
    have r: "getitem2 (rows_of s pl) k 0 = Some (rows_of s pl ! nat k ! 0)"
      by (rule rows_get0[OF wf_shape_of(2)[OF wf] k(1) k5])
    show ?thesis using g b r by (auto simp: valid_move_def)
  qed
qed

lemma valid_move_penalty_target:
  assumes "getitem2 (drawing_pit s) i j = Some n" "n \<noteq> 0"
  shows "valid_move s pl i j 5 = Some True"
  using assms by (simp add: valid_move_def)

lemma valid_actions_loop_total:
  assumes "list_all (\<lambda>(i, j, k). \<exists>b. valid_move s pl i j k = Some b) cs"
  shows "valid_actions_loop s pl cs
           = Some (filter (\<lambda>(i, j, k). valid_move s pl i j k = Some True) cs)"
  using assms
proof (induction cs)
  case Nil
  then show ?case by simp
next
  case (Cons x cs)
  obtain i j k where x: "x = (i, j, k)" by (cases x)
  from Cons.prems obtain b where b: "valid_move s pl i j k = Some b"
    and rest: "list_all (\<lambda>(i, j, k). \<exists>b. valid_move s pl i j k = Some b) cs"
    unfolding x by auto
  have ih: "valid_actions_loop s pl cs
           = Some (filter (\<lambda>(i, j, k). valid_move s pl i j k = Some True) cs)"
    by (rule Cons.IH[OF rest])
  show ?case
    unfolding x by (cases b) (simp_all add: b ih)
qed

lemma set_range_int: "set (range_int n) = {i. 0 \<le> i \<and> i < n}"
proof -
  have "\<And>i. 0 \<le> i \<Longrightarrow> i < n \<Longrightarrow> i \<in> int ` {0..<nat n}"
    by (rule_tac x = "nat i" in image_eqI) auto
  then show ?thesis by (auto simp: range_int_def)
qed

lemma set_all_triples:
  "set all_triples = {(i, j, k). 0 \<le> i \<and> i < 6 \<and> 0 \<le> j \<and> j < 5 \<and> 0 \<le> k \<and> k < 6}"
  by (auto simp: all_triples_def set_range_int)

text \<open>
  C9.  In a well-shaped state, if pool slot \<open>i\<close> holds a nonzero count of color \<open>j\<close>, then
  drafting that color from that slot into the penalty track (target 5) is legal for
  either player, and \<open>valid_actions\<close> returns a non-empty list that contains this move.
\<close>

theorem legal_move_exists:
  assumes wf: "wf_shape s"
    and i: "0 \<le> i" "i < 6" and j: "0 \<le> j" "j < 5"
    and n: "getitem2 (drawing_pit s) i j = Some n" "n \<noteq> 0"
  shows "valid_move s player i j 5 = Some True
       \<and> (\<exists>acts. valid_actions s player = Some acts \<and> (i, j, 5) \<in> set acts \<and> acts \<noteq> [])"
proof -
  have v: "valid_move s player i j 5 = Some True"
    by (rule valid_move_penalty_target[OF n])
  have "list_all (\<lambda>(i, j, k). \<exists>b. valid_move s player i j k = Some b) all_triples"
    unfolding list_all_iff set_all_triples using valid_move_total[OF wf] by auto
  then have va: "valid_actions s player
      = Some (filter (\<lambda>(i, j, k). valid_move s player i j k = Some True) all_triples)"
    unfolding valid_actions_def by (rule valid_actions_loop_total)
  have "(i, j, 5) \<in> set all_triples" using i j by (simp add: set_all_triples)
  then have m: "(i, j, 5) \<in> set (filter (\<lambda>(i, j, k). valid_move s player i j k = Some True) all_triples)"
    using v by simp
  have h: "\<And>x xs. x \<in> set xs \<Longrightarrow> xs \<noteq> []" by auto
  have "filter (\<lambda>(i, j, k). valid_move s player i j k = Some True) all_triples \<noteq> []"
    by (rule h[OF m])
  then show ?thesis using v va m by simp
qed

theorem legal_move_exists_witness:
  "wf_shape example_game \<and> getitem2 (drawing_pit example_game) 0 0 = Some 2
   \<and> valid_move example_game P2 0 0 5 = Some True
   \<and> (\<exists>acts. valid_actions example_game P2 = Some acts \<and> (0, 0, 5) \<in> set acts \<and> acts \<noteq> [])"
proof -
  have wf: "wf_shape example_game" by code_simp
  have g: "getitem2 (drawing_pit example_game) 0 0 = Some 2" by code_simp
  from legal_move_exists[OF wf _ _ _ _ g, of P2] wf g show ?thesis by simp
qed

section \<open>Round scoring\<close>

lemma row_scan_after:
  "c \<le> i \<Longrightarrow> row_scan c i score es = score + int (length (takeWhile (\<lambda>e. e \<noteq> 0) es))"
  by (induction es arbitrary: i score) auto

lemma takeWhile_rev_snoc:
  "takeWhile P (rev t @ [e])
     = (if list_all P t then rev t @ (if P e then [e] else []) else takeWhile P (rev t))"
proof (cases "list_all P t")
  case True
  then have "\<And>x. x \<in> set (rev t) \<Longrightarrow> P x" by (simp add: list_all_iff)
  then have "takeWhile P (rev t @ [e]) = rev t @ takeWhile P [e]"
    by (rule takeWhile_append2)
  then show ?thesis using True by simp
next
  case False
  then obtain x where "x \<in> set (rev t)" "\<not> P x" by (auto simp: list_all_iff)
  then have "takeWhile P (rev t @ [e]) = takeWhile P (rev t)"
    by (rule takeWhile_append1)
  then show ?thesis using False by simp
qed

lemma takeWhile_all: "list_all P xs \<Longrightarrow> takeWhile P xs = xs"
  by (induction xs) auto

lemma row_scan_before:
  "row_scan c (c - int d) score es
     = (if list_all (\<lambda>e. e \<noteq> 0) (take d es) then score + int (min d (length es))
        else int (length (takeWhile (\<lambda>e. e \<noteq> 0) (rev (take d es)))))
       + int (length (takeWhile (\<lambda>e. e \<noteq> 0) (drop d es)))"
proof (induction es arbitrary: d score)
  case Nil
  then show ?case by simp
next
  case (Cons e es)
  show ?case
  proof (cases d)
    case 0
    then show ?thesis using row_scan_after[of c c score "e # es"] by simp
  next
    case (Suc d')
    have lt: "c - int d < c" using Suc by simp
    have nx: "c - int d + 1 = c - int d'" using Suc by simp
    define t where "t = take d' es"
    have len: "length t = min d' (length es)" by (simp add: t_def)
    have step: "row_scan c (c - int d) score (e # es)
                  = row_scan c (c - int d') (if e \<noteq> 0 then score + 1 else 0) es"
      using lt by (simp add: nx)
    note ih = Cons.IH[of d' "if e \<noteq> 0 then score + 1 else 0", folded t_def]
    have tk: "take d (e # es) = e # t" "drop d (e # es) = drop d' es"
      using Suc by (simp_all add: t_def)
    have rv: "rev (e # t) = rev t @ [e]" by simp
    note sn = takeWhile_rev_snoc[of "\<lambda>e. e \<noteq> 0" t e]
    show ?thesis
      unfolding step ih tk rv sn
      using len Suc by (auto simp: takeWhile_all list_all_iff)
  qed
qed

lemma row_scan_run:
  "row_scan (int c) 0 0 es = run_through es c"
proof -
  have "row_scan (int c) (int c - int c) 0 es
     = (if list_all (\<lambda>e. e \<noteq> 0) (take c es) then 0 + int (min c (length es))
        else int (length (takeWhile (\<lambda>e. e \<noteq> 0) (rev (take c es)))))
       + int (length (takeWhile (\<lambda>e. e \<noteq> 0) (drop c es)))"
    by (rule row_scan_before)
  moreover have "list_all (\<lambda>e. e \<noteq> 0) (take c es) \<Longrightarrow>
      length (takeWhile (\<lambda>e. e \<noteq> 0) (rev (take c es))) = min c (length es)"
    by (simp add: takeWhile_all list_all_iff)
  ultimately show ?thesis by (auto simp: run_through_def)
qed

lemma col_scan_row_scan:
  assumes "list_all (\<lambda>row. c < length row) rows"
  shows "col_scan r (int c) i pt rows = Some (row_scan r i pt (map (\<lambda>row. row ! c) rows))"
  using assms
proof (induction rows arbitrary: i pt)
  case Nil
  then show ?case by simp
next
  case (Cons row rows)
  then have g: "getitem row (int c) = Some (row ! c)" by (simp add: getitem_nat)
  have ih: "\<And>i pt. col_scan r (int c) i pt rows = Some (row_scan r i pt (map (\<lambda>row. row ! c) rows))"
    using Cons by simp
  show ?case by (simp add: g ih)
qed

lemma run_through_pos:
  assumes "c < length cells" "cells ! c \<noteq> 0"
  shows "1 \<le> run_through cells c"
proof -
  have "drop c cells = cells ! c # drop (Suc c) cells"
    using assms(1) by (simp add: Cons_nth_drop_Suc)
  then have "1 \<le> length (takeWhile (\<lambda>e. e \<noteq> 0) (drop c cells))"
    using assms(2) by simp
  then show ?thesis by (simp add: run_through_def)
qed

lemma compute_row_point_run:
  assumes "k < length (board_of s pl)"
  shows "compute_row_point s (int k) (int c) pl = Some (run_through (board_of s pl ! k) c - 1)"
  using assms by (simp add: compute_row_point_def getitem_nat row_scan_run)

lemma compute_column_point_run:
  assumes "list_all (\<lambda>row. c < length row) (board_of s pl)"
  shows "compute_column_point s (int k) (int c) pl
           = Some (run_through (map (\<lambda>row. row ! c) (board_of s pl)) k - 1)"
  using assms by (simp add: compute_column_point_def col_scan_row_scan row_scan_run)

lemma board_cols:
  assumes "map length b = [5, 5, 5, 5, 5]" "c < 5"
  shows "list_all (\<lambda>row. c < length row) b"
proof -
  have "\<forall>l \<in> set (map length b). c < l" using assms by simp
  then show ?thesis by (simp add: list_all_iff)
qed

lemma add_tile_result:
  assumes sh: "map length (board_of s pl) = [5, 5, 5, 5, 5]" and k: "k < 5"
    and c: "c = nat ((tile - 1 + int k) mod 5)"
    and b': "b' = (board_of s pl)[k := (board_of s pl ! k)[c := 1]]"
  shows "add_tile_to_scoreboard s tile pl (int k)
           = Some (1 + (run_through (b' ! k) c - 1)
                     + (run_through (map (\<lambda>row. row ! c) b') k - 1),
                   set_board s pl b')"
proof -
  have ci: "(tile - 1 + int k) mod 5 = int c" and c5: "c < 5" using c by simp_all
  have lk: "length (board_of s pl ! k) = 5" "length (board_of s pl) = 5"
    using board_shape_nth[OF sh k] by simp_all
  have st: "setitem2 (board_of s pl) (int k) (int c) 1 = Some b'"
    unfolding b' using lk k c5 by (intro setitem2_nat) simp_all
  have bs: "board_of (set_board s pl b') pl = b'"
    by (cases pl) (simp_all add: set_board_def board_of_def)
  have sh': "map length b' = [5, 5, 5, 5, 5]"
    using setitem2_shape[OF st] sh by simp
  have kl: "k < length b'" using shape_length[OF sh'] k by simp
  have rp: "compute_row_point (set_board s pl b') (int k) (int c) pl
              = Some (run_through (b' ! k) c - 1)"
    using compute_row_point_run[of k "set_board s pl b'" pl c] kl bs by simp
  have cp: "compute_column_point (set_board s pl b') (int k) (int c) pl
              = Some (run_through (map (\<lambda>row. row ! c) b') k - 1)"
    using compute_column_point_run[of c "set_board s pl b'" pl k] board_cols[OF sh' c5] bs
    by simp
  show ?thesis
    unfolding add_tile_to_scoreboard_def Let_def ci by (simp add: st rp cp)
qed

lemma score_row_completed:
  assumes wf: "wf_shape s" and k: "k < 5"
    and full: "rows_of s player ! k = replicate (k + 1) (color + 1)" and col: "color + 1 \<noteq> 0"
    and sc: "0 \<le> score_of s player"
    and c: "c = nat ((color + int k) mod 5)"
    and w: "wall' = (board_of s player)[k := (board_of s player ! k)[c := 1]]"
  shows "\<exists>s'. score_row s player k = Some s'
           \<and> rows_of s' player = (rows_of s player)[k := replicate (k + 1) 0]
           \<and> board_of s' player = wall'
           \<and> wall' ! k ! c = 1
           \<and> score_of s' player
               = score_of s player
                 + (1 + (run_through (wall' ! k) c - 1)
                      + (run_through (map (\<lambda>row. row ! c) wall') k - 1))"
proof -
  define rows' where "rows' = (rows_of s player)[k := replicate (k + 1) 0]"
  define s1 where "s1 = set_rows s player rows'"
  define pts where "pts = 1 + (run_through (wall' ! k) c - 1)
                      + (run_through (map (\<lambda>row. row ! c) wall') k - 1)"
  have c5: "c < 5" using c by simp
  have fe: "getitem (rows_of s player ! k) 0 = Some (color + 1)"
    unfolding full using getitem_nat[of 0 "replicate (k + 1) (color + 1)"] by simp
  have all: "list_all (\<lambda>elem. elem = color + 1 \<and> elem \<noteq> 0) (rows_of s player ! k)"
    unfolding full using col by (simp add: list_all_iff)
  have cr: "clear_row s (int k) player = Some s1"
    unfolding s1_def rows'_def by (rule clear_row_result[OF wf_shape_of(2)[OF wf] k])
  have b1: "board_of s1 player = board_of s player"
    by (cases player) (simp_all add: s1_def set_rows_def board_of_def)
  have sh1: "map length (board_of s1 player) = [5, 5, 5, 5, 5]"
    unfolding b1 by (rule wf_shape_of(1)[OF wf])
  have c1: "c = nat ((color + 1 - 1 + int k) mod 5)" using c by simp
  have at: "add_tile_to_scoreboard s1 (color + 1) player (int k) = Some (pts, set_board s1 player wall')"
    unfolding pts_def by (rule add_tile_result[OF sh1 k c1]) (simp add: b1 w)
  have sr: "score_row s player k = Some (update_score (set_board s1 player wall') player pts)"
    unfolding score_row_def Let_def by (simp add: fe all cr at)
  have lk: "length (board_of s player ! k) = 5" "length (board_of s player) = 5"
    using board_shape_nth[OF wf_shape_of(1)[OF wf] k] by simp_all
  have cell: "wall' ! k ! c = 1" unfolding w using lk k c5 by simp
  have lw: "c < length (wall' ! k)" "k < length (map (\<lambda>row. row ! c) wall')"
    unfolding w using lk k c5 by simp_all
  have "1 \<le> run_through (wall' ! k) c"
    using run_through_pos[OF lw(1)] cell by simp
  moreover have "1 \<le> run_through (map (\<lambda>row. row ! c) wall') k"
    using run_through_pos[OF lw(2)] cell lw(2) by simp
  ultimately have p1: "1 \<le> pts" by (simp add: pts_def)
  have s2: "score_of (set_board s1 player wall') player = score_of s player"
    by (cases player) (simp_all add: s1_def set_rows_def set_board_def score_of_def)
  have res: "score_of (update_score (set_board s1 player wall') player pts) player
               = score_of s player + pts"
    using s2 p1 sc by (cases player) (simp_all add: update_score_def score_of_def)
  have rws: "rows_of (update_score (set_board s1 player wall') player pts) player = rows'"
    by (cases player) (simp_all add: update_score_def s1_def set_rows_def set_board_def rows_of_def)
  have bds: "board_of (update_score (set_board s1 player wall') player pts) player = wall'"
    by (cases player) (simp_all add: update_score_def set_board_def board_of_def)
  show ?thesis
    using sr rws bds cell res unfolding rows'_def pts_def by simp
qed

section \<open>Totality on well-formed states\<close>

lemma penalty_loop_total:
  assumes "list_all (\<lambda>i. 0 \<le> i \<and> i < int (length row)) is"
  shows "\<exists>r. penalty_loop row pfa n is = Some r"
  using assms
proof (induction "is" arbitrary: row pfa n)
  case Nil
  then show ?case by simp
next
  case (Cons i "is")
  then have i: "0 \<le> i" "i < int (length row)"
    and rest: "list_all (\<lambda>i. 0 \<le> i \<and> i < int (length row)) is" by simp_all
  have g: "getitem row i = Some (row ! nat i)" by (rule getitem_int[OF i])
  have st: "setitem row i 1 = Some (row[nat i := 1])" by (rule setitem_int[OF i])
  have rest': "list_all (\<lambda>j. 0 \<le> j \<and> j < int (length (row[nat i := 1]))) is"
    using rest by simp
  show ?case
    using Cons.IH[OF rest, of pfa n] Cons.IH[OF rest', of "pfa + penalty_cost i" "n - 1"]
    by (simp add: g st)
qed

lemma penality_sum_total:
  assumes "list_all (\<lambda>i. 0 \<le> i \<and> i < int (length row)) is"
  shows "\<exists>r. penality_sum row pen is = Some r"
  using assms
proof (induction "is" arbitrary: pen)
  case Nil
  then show ?case by simp
next
  case (Cons i "is")
  then have i: "0 \<le> i" "i < int (length row)"
    and rest: "list_all (\<lambda>i. 0 \<le> i \<and> i < int (length row)) is" by simp_all
  have g: "getitem row i = Some (row ! nat i)" by (rule getitem_int[OF i])
  show ?case
    using Cons.IH[OF rest] by (simp add: g)
qed

lemma range_int_in_range: "n \<le> int m \<Longrightarrow> list_all (\<lambda>i. 0 \<le> i \<and> i < int m) (range_int n)"
  by (auto simp: list_all_iff set_range_int)

lemma insert_penalty_total:
  assumes "length (penalty_of s pl) = 7"
  shows "\<exists>s'. insert_tiles_in_penalty_column s n pl = Some s'"
proof -
  have "list_all (\<lambda>i. 0 \<le> i \<and> i < int (length (penalty_of s pl))) (range_int 7)"
    using range_int_in_range[of 7 7] assms by simp
  from penalty_loop_total[OF this, of 0 n]
  obtain r where r: "penalty_loop (penalty_of s pl) 0 n (range_int 7) = Some r" by blast
  obtain row pfa n' where "r = (row, pfa, n')" by (cases r)
  then show ?thesis using r by (simp add: insert_tiles_in_penalty_column_def)
qed

lemma calculate_penality_total:
  assumes "length (penalty_of s pl) = 7"
  shows "\<exists>s'. calculate_penality s pl = Some s'"
proof -
  have "list_all (\<lambda>i. 0 \<le> i \<and> i < int (length (penalty_of s pl))) (range_int 7)"
    using range_int_in_range[of 7 7] assms by simp
  from penality_sum_total[OF this, of 0]
  obtain r where "penality_sum (penalty_of s pl) 0 (range_int 7) = Some r" by blast
  then show ?thesis by (simp add: calculate_penality_def)
qed

lemma discard_tiles_total:
  assumes "map length dp = [5, 5, 5, 5, 5, 5]" "0 \<le> p" "p < 6"
    "list_all (\<lambda>i. 0 \<le> i \<and> i < 5) is"
  shows "\<exists>dp'. discard_tiles dp p is = Some dp'"
  using assms
proof (induction "is" arbitrary: dp)
  case Nil
  then show ?case by simp
next
  case (Cons i "is")
  then have i: "0 \<le> i" "i < 5" and rest: "list_all (\<lambda>i. 0 \<le> i \<and> i < 5) is" by simp_all
  note sh = Cons.prems(1) and p = Cons.prems(2,3)
  have g1: "getitem2 dp p i = Some (dp ! nat p ! nat i)" by (rule pit_get[OF sh p i])
  have kp: "nat p < 6" using p by simp
  define dp1 where "dp1 = dp[nat p := (dp ! nat p)[nat i := 0]]"
  have s1: "setitem2 dp p i 0 = Some dp1"
    unfolding dp1_def using pit_shape_nth[OF sh kp] p i by (intro setitem2_int) simp_all
  have sh1: "map length dp1 = [5, 5, 5, 5, 5, 5]" using setitem2_shape[OF s1] sh by simp
  have g2: "getitem2 dp1 5 i = Some (dp1 ! 5 ! nat i)"
    using pit_get[OF sh1 _ _ i, of 5] by simp
  define dp2 where "dp2 = dp1[5 := (dp1 ! 5)[nat i := dp1 ! 5 ! nat i + dp ! nat p ! nat i]]"
  have s2: "setitem2 dp1 5 i (dp1 ! 5 ! nat i + dp ! nat p ! nat i) = Some dp2"
    unfolding dp2_def using pit_shape_nth[OF sh1, of 5] i setitem2_int[of 5 dp1 i] by simp
  have sh2: "map length dp2 = [5, 5, 5, 5, 5, 5]" using setitem2_shape[OF s2] sh1 by simp
  from Cons.IH[OF sh2 p rest] show ?case by (simp add: g1 s1 g2 s2)
qed

lemma take_tile_total:
  assumes "map length (drawing_pit s) = [5, 5, 5, 5, 5, 5]" "0 \<le> p" "p < 6" "0 \<le> t" "t < 5"
  shows "\<exists>r. take_tile_from_pit s p t pl = Some r"
proof -
  note sh = assms(1) and p = assms(2,3) and t = assms(4,5)
  have g: "getitem2 (drawing_pit s) p t = Some (drawing_pit s ! nat p ! nat t)"
    by (rule pit_get[OF sh p t])
  have kp: "nat p < 6" using p by simp
  define dp where "dp = (drawing_pit s)[nat p := (drawing_pit s ! nat p)[nat t := 0]]"
  have st: "setitem2 (drawing_pit s) p t 0 = Some dp"
    unfolding dp_def using pit_shape_nth[OF sh kp] p t by (intro setitem2_int) simp_all
  have sh1: "map length dp = [5, 5, 5, 5, 5, 5]" using setitem2_shape[OF st] sh by simp
  have "list_all (\<lambda>i. 0 \<le> i \<and> i < 5) (range_int 5)"
    using range_int_in_range[of 5 5] by simp
  from discard_tiles_total[OF sh1 p this]
  obtain dp' where "discard_tiles dp p (range_int 5) = Some dp'" by blast
  then show ?thesis
    using g st by (cases "p = 5") (auto simp: take_tile_from_pit_def Let_def)
qed

lemma game_inv_wf: "game_inv s \<Longrightarrow> wf_shape s"
  by (simp add: game_inv_def)

lemma insert_column_total:
  assumes wf: "wf_shape s" and c: "0 \<le> c" "c < 6"
  shows "\<exists>s'. insert_tiles_in_column s t d c pl = Some s'"
proof (cases "c = 5")
  case True
  then show ?thesis
    using insert_penalty_total[OF wf_shape_of(3)[OF wf], of d pl]
    by (simp add: insert_tiles_in_column_def)
next
  case False
  define k where "k = nat c"
  have k: "k < 5" and ck: "c = int k" using c False by (simp_all add: k_def)
  have lenk: "length (rows_of s pl ! k) = k + 1" and klt: "k < length (rows_of s pl)"
    using rows_shape_nth[OF wf_shape_of(2)[OF wf] k] by simp_all
  from fill_loop_rows[OF klt, of 0 "k + 1" t 0 d] lenk obtain rows' ins' n' where
    fl: "fill_loop (rows_of s pl) (int k) t 0 d (map int [0..<0 + (k + 1)]) = Some (rows', ins', n')"
    by auto
  have "length (penalty_of ((set_rows s pl rows')\<lparr>inserted_tile_in_column_for_action := ins'\<rparr>) pl) = 7"
    using wf_shape_of(3)[OF wf, of pl]
    by (cases pl) (simp_all add: set_rows_def penalty_of_def)
  from insert_penalty_total[OF this, of n'] obtain s' where
    "insert_tiles_in_penalty_column
       ((set_rows s pl rows')\<lparr>inserted_tile_in_column_for_action := ins'\<rparr>) n' pl = Some s'"
    by blast
  then show ?thesis
    using False fl unfolding insert_tiles_in_column_def ck range_int_Suc by simp
qed

lemma play_turn_total:
  assumes inv: "game_inv s" and p: "0 \<le> p" "p < 6" and t: "0 \<le> t" "t < 5"
    and c: "0 \<le> c" "c < 6"
  shows "\<exists>r. play_turn s pl p t c = Some r"
proof -
  define s0 where "s0 = s\<lparr>penality_for_action := 0\<rparr>"
  have inv0: "game_inv s0" using inv by (simp add: s0_def)
  have wf0: "wf_shape s0" by (rule game_inv_wf[OF inv0])
  from valid_move_total[OF wf0 p t c] obtain b where b: "valid_move s0 pl p t c = Some b"
    by blast
  show ?thesis
  proof (cases b)
    case False
    then show ?thesis using play_turn_invalid[of s pl p t c] b by (auto simp: s0_def)
  next
    case True
    then have vm: "valid_move s0 pl p t c = Some True" using b by simp
    from take_tile_total[OF wf_shape_of(4)[OF wf0] p t, of pl]
    obtain r where r: "take_tile_from_pit s0 p t pl = Some r" by blast
    obtain d s1 where rd: "r = (d, s1)" by (cases r)
    have tk: "take_tile_from_pit s0 p t pl = Some (d, s1)" using r rd by simp
    have inv1: "game_inv s1" by (rule take_tile_inv(1)[OF tk inv0])
    define A where "A = (if p = 5 \<and> new_first_player s1
          then insert_tiles_in_penalty_column
                 (s1\<lparr>initial_player := pl, new_first_player := False\<rparr>) 1 pl
          else Some s1)"
    have i1: "game_inv (s1\<lparr>initial_player := pl, new_first_player := False\<rparr>)"
      using inv1 by simp
    have "\<exists>s2. A = Some s2"
      using insert_penalty_total[OF wf_shape_of(3)[OF game_inv_wf[OF i1]], of 1 pl]
      by (cases "p = 5 \<and> new_first_player s1") (simp_all add: A_def)
    then obtain s2 where s2: "A = Some s2" by blast
    have inv2: "game_inv s2"
      using s2 inv1 insert_penalty_inv(1)[OF _ i1, of 1 pl s2]
      by (auto simp: A_def split: if_splits)
    define B where "B = (if c \<noteq> 5 then insert_tiles_in_column s2 t d c pl
          else insert_tiles_in_penalty_column s2 d pl)"
    have "\<exists>s3. B = Some s3"
      using insert_column_total[OF game_inv_wf[OF inv2] c, of t d pl]
        insert_penalty_total[OF wf_shape_of(3)[OF game_inv_wf[OF inv2]], of d pl]
      by (cases "c = 5") (simp_all add: B_def)
    then obtain s3 where s3: "B = Some s3" by blast
    have "play_turn s pl p t c
            = Some (True, s3\<lparr>player_turn := (if player_turn s3 = P1 then P2 else P1)\<rparr>)"
      unfolding play_turn_valid[OF vm[unfolded s0_def]]
      using tk s2 s3 unfolding s0_def A_def B_def by simp
    then show ?thesis by blast
  qed
qed

lemma score_row_total:
  assumes wf: "wf_shape s" and k: "k < 5"
  shows "\<exists>s'. score_row s pl k = Some s'"
proof -
  have lenk: "length (rows_of s pl ! k) = k + 1"
    using rows_shape_nth[OF wf_shape_of(2)[OF wf] k] by simp
  then have fe: "getitem (rows_of s pl ! k) 0 = Some (rows_of s pl ! k ! 0)"
    using getitem_nat[of 0 "rows_of s pl ! k"] by simp
  define s1 where "s1 = set_rows s pl ((rows_of s pl)[k := replicate (k + 1) 0])"
  have cr: "clear_row s (int k) pl = Some s1"
    unfolding s1_def by (rule clear_row_result[OF wf_shape_of(2)[OF wf] k])
  have b1: "board_of s1 pl = board_of s pl"
    by (cases pl) (simp_all add: s1_def set_rows_def board_of_def)
  have sh1: "map length (board_of s1 pl) = [5, 5, 5, 5, 5]"
    unfolding b1 by (rule wf_shape_of(1)[OF wf])
  obtain r where at: "add_tile_to_scoreboard s1 (rows_of s pl ! k ! 0) pl (int k) = Some r"
    using add_tile_result[OF sh1 k refl refl] by blast
  obtain pts s2 where "r = (pts, s2)" by (cases r)
  then show ?thesis
    unfolding score_row_def Let_def using at by (simp add: fe cr)
qed

lemma score_rows_total:
  assumes "game_inv s" "list_all (\<lambda>k. k < 5) ks"
  shows "\<exists>s'. score_rows s pl ks = Some s'"
  using assms
proof (induction ks arbitrary: s)
  case Nil
  then show ?case by simp
next
  case (Cons k ks)
  then have k: "k < 5" and rest: "list_all (\<lambda>k. k < 5) ks" by simp_all
  from score_row_total[OF game_inv_wf[OF Cons.prems(1)] k, of pl]
  obtain s1 where s1: "score_row s pl k = Some s1" by blast
  have "game_inv s1" by (rule score_row_inv[OF s1 Cons.prems(1) k])
  from Cons.IH[OF this rest] show ?case by (simp add: s1)
qed

lemma calculate_score_total:
  assumes "game_inv s"
  shows "\<exists>s'. calculate_score s pl = Some s'"
proof -
  have "length (rows_of s pl) = 5"
    using shape_length[OF rows_shape_of[OF assms]] by simp
  then have all: "list_all (\<lambda>k. k < 5) [0..<length (rows_of s pl)]"
    by (simp add: list_all_iff)
  from score_rows_total[OF assms all, of pl]
  obtain s1 where s1: "score_rows s pl [0..<length (rows_of s pl)] = Some s1" by blast
  have "game_inv s1" by (rule score_rows_inv[OF s1 assms all])
  from calculate_penality_total[OF wf_shape_of(3)[OF game_inv_wf[OF this]], of pl]
  show ?thesis by (simp add: calculate_score_def s1)
qed

lemma score_round_total:
  assumes "game_inv s"
  shows "\<exists>s'. score_round s = Some s'"
proof -
  from calculate_score_total[OF assms, of P1]
  obtain sa where sa: "calculate_score s P1 = Some sa" by blast
  have "game_inv sa" by (rule calculate_score_inv[OF sa assms])
  from calculate_score_total[OF this, of P2]
  obtain sb where sb: "calculate_score sa P2 = Some sb" by blast
  show ?thesis by (simp add: score_round_def sa sb)
qed

lemma expected_row_loop_total:
  assumes "list_all (\<lambda>i. 0 \<le> i \<and> i < int (length rc)) is"
  shows "\<exists>r. expected_row_loop rc idx e is = Some r"
  using assms
proof (induction "is" arbitrary: e)
  case Nil
  then show ?case by simp
next
  case (Cons i "is")
  then have i: "0 \<le> i" "i < int (length rc)"
    and rest: "list_all (\<lambda>i. 0 \<le> i \<and> i < int (length rc)) is" by simp_all
  have g: "getitem rc i = Some (rc ! nat i)" by (rule getitem_int[OF i])
  show ?case using Cons.IH[OF rest] by (simp add: g)
qed

lemma expected_column_loop_total:
  assumes sh: "map length board = [5, 5, 5, 5, 5]" and ra: "length row_array = 5"
    and t: "0 \<le> t" "t < 5" and rng: "list_all (\<lambda>i. 0 \<le> i \<and> i < 5) is"
  shows "\<exists>r. expected_column_loop row_array cc t board flag e is = Some r"
  using rng
proof (induction "is" arbitrary: flag e)
  case Nil
  then show ?case by simp
next
  case (Cons i "is")
  then have i: "0 \<le> i" "i < 5" and rest: "list_all (\<lambda>i. 0 \<le> i \<and> i < 5) is" by simp_all
  have g: "getitem2 board i t = Some (board ! nat i ! nat t)" by (rule board_get[OF sh i t])
  have r: "getitem row_array i = Some (row_array ! nat i)"
    using getitem_int[of i row_array] i ra by simp
  show ?case
  proof (cases "i = cc")
    case True
    then show ?thesis using Cons.IH[OF rest] by simp
  next
    case False
    show ?thesis
    proof (cases "board ! nat i ! nat t \<noteq> 0")
      case True
      then show ?thesis using False Cons.IH[OF rest] by (simp add: g)
    next
      case z: False
      show ?thesis
      proof (cases "pending_row_loop flag e (row_array ! nat i)")
        case (Inl v)
        then show ?thesis using False z by (simp add: g r)
      next
        case (Inr v)
        then show ?thesis using False z Cons.IH[OF rest] by (simp add: g r)
      qed
    qed
  qed
qed

lemma fold_map2_length:
  assumes "list_all (\<lambda>row. length row = length acc) b"
  shows "length (fold (\<lambda>row acc. map2 (+) acc row) b (acc::int list)) = length acc"
  using assms by (induction b arbitrary: acc) simp_all

lemma board_rows5:
  assumes "map length b = [5, 5, 5, 5, 5]"
  shows "list_all (\<lambda>row. length row = 5) b"
proof -
  have "\<forall>l \<in> set (map length b). l = 5" using assms by simp
  then show ?thesis by (simp add: list_all_iff)
qed

lemma cumulative_length:
  assumes "map length b = [5, 5, 5, 5, 5]"
  shows "length (cumulative b) = 5"
proof -
  have "length [0, 0, 0, 0, 0::int] = 5" by simp
  then have "list_all (\<lambda>row. length row = length [0, 0, 0, 0, 0::int]) b"
    using board_rows5[OF assms] by (simp only:)
  from fold_map2_length[OF this] show ?thesis by (simp add: cumulative_def)
qed

lemma fold_update_length:
  "length (fold (\<lambda>(i, j) ta. if P i j then ta[f i j := g i j ta] else ta) ps (ta::int list))
     = length ta"
  by (induction ps arbitrary: ta) (auto split: prod.splits)

lemma weighted_tile_array_length: "length (weighted_tile_array b) = 5"
  unfolding weighted_tile_array_def
  using fold_update_length[of "\<lambda>i j. b ! i ! j = 1" "\<lambda>i j. (i + j) mod 5"
      "\<lambda>i j ta. ta ! ((i + j) mod 5) + 1 * int i" "List.product [0..<5] [0..<5]" "[0, 0, 0, 0, 0]"]
  by simp

lemma action_analisys_total:
  assumes wf: "wf_shape s" and t: "0 \<le> t" "t < 5" and c: "0 \<le> c" "c < 6"
  shows "\<exists>r. action_analisys s pl t c = Some r"
proof (cases "c = 5")
  case True
  then show ?thesis by (simp add: action_analisys_def)
next
  case False
  then have c5: "c < 5" using c by simp
  note bs = wf_shape_of(1)[OF wf, of pl] and rs = wf_shape_of(2)[OF wf, of pl]
  have lr: "length (rows_of s pl) = 5" using shape_length[OF rs] by simp
  have lb: "length (board_of s pl) = 5" using shape_length[OF bs] by simp
  have gr: "getitem (rows_of s pl) c = Some (rows_of s pl ! nat c)"
    using getitem_int[of c "rows_of s pl"] c(1) c5 lr by simp
  have gb: "getitem (board_of s pl) c = Some (board_of s pl ! nat c)"
    using getitem_int[of c "board_of s pl"] c(1) c5 lb by simp
  have lbc: "length (board_of s pl ! nat c) = 5"
    using board_shape_nth(1)[OF bs, of "nat c"] c5 by simp
  have r5: "list_all (\<lambda>i. 0 \<le> i \<and> i < 5) (range_int 5)"
    using range_int_in_range[of 5 5] by simp
  then have "list_all (\<lambda>i. 0 \<le> i \<and> i < int (length (board_of s pl ! nat c))) (range_int 5)"
    using lbc by simp
  from expected_row_loop_total[OF this, of "(t + c) mod 5" 0]
  obtain erp where erp: "compute_expected_row_points (rows_of s pl) c t (board_of s pl) = Some erp"
    by (auto simp: compute_expected_row_points_def gb)
  from expected_column_loop_total[OF bs lr t r5, of c False 0]
  obtain ecp where ecp: "compute_expected_column_points (rows_of s pl) c t (board_of s pl) = Some ecp"
    by (auto simp: compute_expected_column_points_def)
  have ar: "action_analisys_row (board_of s pl) c
      = Some (int (length (filter (\<lambda>tile. tile \<noteq> 0) (board_of s pl ! nat c))))"
    by (simp add: action_analisys_row_def gb)
  have ac: "action_analisys_column (board_of s pl) t = Some (cumulative (board_of s pl) ! nat t)"
    unfolding action_analisys_column_def
    using getitem_int[of t "cumulative (board_of s pl)"] t cumulative_length[OF bs] by simp
  have acol: "action_analisys_color (board_of s pl) t
      = Some (weighted_tile_array (board_of s pl) ! nat t)"
    unfolding action_analisys_color_def
    using getitem_int[of t "weighted_tile_array (board_of s pl)"] t weighted_tile_array_length
    by simp
  show ?thesis
    using False by (simp add: action_analisys_def Let_def gr erp ecp ar ac acol)
qed

lemma decode_in_range_bounds:
  assumes "0 \<le> a" "a < 180" "from_action_to_tuple_action a = (p, t, c)"
  shows "0 \<le> p \<and> p < 6 \<and> 0 \<le> t \<and> t < 5 \<and> 0 \<le> c \<and> c < 6"
proof -
  have "(p, t, c) = spec_decode a" using decode_in_range[OF assms(1)] assms(3) by simp
  then have e: "p = a mod 6" "t = (a div 6) mod 5" "c = a div 30"
    by (simp_all add: spec_decode_def)
  have "a div 30 < 6" using assms(1,2) by simp
  moreover have "0 \<le> a div 30" using assms(1) by simp
  ultimately show ?thesis unfolding e by simp
qed

lemma play_turn_flag:
  assumes "play_turn s pl p t c = Some (ok, s1)"
  shows "valid_move s pl p t c = Some ok"
  using assms
proof (cases rule: play_turn_cases)
  case illegal
  then show ?thesis by (simp add: valid_move_penality_for_action)
next
  case (legal d s1 s2 s3)
  then show ?thesis by (simp add: valid_move_penality_for_action)
qed

text \<open>
  C6, amended: for every action id in [0, 180) the decoded pool, color and target are in
  range, and on every state that satisfies the invariant (every reachable state does)
  the legality check, the move and \<open>step\<close> return without an index error: the move
  either succeeds or fails as illegal.
\<close>

theorem step_in_range_total:
  assumes inv: "game_inv s" and a: "0 \<le> a" "a < 180"
  shows "\<exists>p t c. from_action_to_tuple_action a = (p, t, c)
           \<and> 0 \<le> p \<and> p < 6 \<and> 0 \<le> t \<and> t < 5 \<and> 0 \<le> c \<and> c < 6
           \<and> (\<exists>ok s1. valid_move s (player_turn s) p t c = Some ok
                     \<and> play_turn s (player_turn s) p t c = Some (ok, s1))
           \<and> (\<exists>s' r d. step s a = Some (s', r, d) \<and> game_inv s')"
proof -
  obtain p t c where dec: "from_action_to_tuple_action a = (p, t, c)"
    by (cases "from_action_to_tuple_action a")
  have b: "0 \<le> p" "p < 6" "0 \<le> t" "t < 5" "0 \<le> c" "c < 6"
    using decode_in_range_bounds[OF a dec] by simp_all
  from play_turn_total[OF inv b, of "player_turn s"]
  obtain x where x: "play_turn s (player_turn s) p t c = Some x" by blast
  obtain ok s1 where xo: "x = (ok, s1)" by (cases x)
  have pt: "play_turn s (player_turn s) p t c = Some (ok, s1)" using x xo by simp
  have vm: "valid_move s (player_turn s) p t c = Some ok" by (rule play_turn_flag[OF pt])
  have t1: "t + 1 \<noteq> 0" using b by simp
  have inv1: "game_inv s1" by (rule play_turn_inv[OF pt inv b(5) t1])
  from action_analisys_total[OF game_inv_wf[OF inv1] b(3-6), of "player_turn s"]
  obtain y where y: "action_analisys s1 (player_turn s) t c = Some y" by blast
  obtain ra ca cola erp ecp cc where yo: "y = (ra, ca, cola, erp, ecp, cc)" by (cases y)
  have inv2: "game_inv (is_game_done (is_turn_done s1))"
    using inv1 by (simp add: is_game_done_inv is_turn_done_inv)
  from score_round_total[OF inv2]
  obtain s3 where s3: "score_round (is_game_done (is_turn_done s1)) = Some s3" by blast
  have st: "step s a = Some (s3, inserted_tile_in_column_for_action s3 + erp + ecp
                               - penality_for_action s3, have_winner s3)"
    unfolding step_def Let_def dec prod.case by (simp add: pt y yo s3)
  have "game_inv s3" by (rule score_round_inv[OF s3 inv2])
  then show ?thesis using dec b vm pt st by blast
qed

theorem step_in_range_total_witness:
  "game_inv example_game
   \<and> from_action_to_tuple_action 179 = (5, 4, 5)
   \<and> valid_move example_game (player_turn example_game) 5 4 5 = Some False
   \<and> (\<exists>s' r d. step example_game 179 = Some (s', r, d) \<and> game_inv s')"
proof -
  have inv: "game_inv example_game" by code_simp
  have d: "from_action_to_tuple_action 179 = (5, 4, 5)" by code_simp
  have v: "valid_move example_game (player_turn example_game) 5 4 5 = Some False" by code_simp
  from step_in_range_total[OF inv, of 179] inv d v show ?thesis by simp
qed

section \<open>A completed staging row\<close>

lemma set_cell_keeps:
  assumes "xss ! r ! c = (1::int)"
  shows "(xss[k := (xss ! k)[l := 1]]) ! r ! c = 1"
proof (cases "r = k \<and> k < length xss")
  case True
  then show ?thesis using assms
    by (cases "l < length (xss ! k)") (auto simp: nth_list_update list_update_beyond)
next
  case False
  then show ?thesis using assms
    by (cases "k < length xss") (auto simp: list_update_beyond)
qed

lemma score_row_frame:
  assumes sr: "score_row s pl j = Some s'" and inv: "game_inv s" and j: "j < 5"
  shows "k \<noteq> j \<Longrightarrow> rows_of s' pl ! k = rows_of s pl ! k"
    and "board_of s pl ! r ! c = 1 \<Longrightarrow> board_of s' pl ! r ! c = 1"
proof -
  have "(k \<noteq> j \<longrightarrow> rows_of s' pl ! k = rows_of s pl ! k)
         \<and> (board_of s pl ! r ! c = 1 \<longrightarrow> board_of s' pl ! r ! c = 1)"
    using sr
  proof (cases rule: score_row_cases)
    case skip
    then show ?thesis by simp
  next
    case (scored first_elem s1 pts s2)
    have s1: "s1 = set_rows s pl ((rows_of s pl)[j := replicate (j + 1) 0])"
      using clear_row_result[OF rows_shape_of[OF inv] j] scored(3) by simp
    from scored(4) obtain b where
      b: "setitem2 (board_of s1 pl) (int j) ((first_elem - 1 + int j) mod 5) 1 = Some b"
      and s2: "s2 = set_board s1 pl b" by (rule add_tile_Some)
    from setitem2_Some[OF b] obtain k' l where
      b': "b = (board_of s1 pl)[k' := (board_of s1 pl ! k')[l := 1]]" by blast
    have b1: "board_of s1 pl = board_of s pl"
      by (cases pl) (simp_all add: s1 set_rows_def board_of_def)
    have rw: "rows_of s' pl = (rows_of s pl)[j := replicate (j + 1) 0]"
      unfolding scored(5) s2 s1
      by (cases pl) (simp_all add: update_score_def set_board_def set_rows_def rows_of_def)
    have bd: "board_of s' pl = (board_of s pl)[k' := (board_of s pl ! k')[l := 1]]"
      unfolding scored(5) s2 b' b1
      by (cases pl) (simp_all add: update_score_def set_board_def board_of_def)
    show ?thesis unfolding rw bd using set_cell_keeps[of "board_of s pl" r c k' l] by simp
  qed
  then show "k \<noteq> j \<Longrightarrow> rows_of s' pl ! k = rows_of s pl ! k"
    and "board_of s pl ! r ! c = 1 \<Longrightarrow> board_of s' pl ! r ! c = 1" by simp_all
qed

lemma score_rows_frame:
  assumes "score_rows s pl ks = Some s'" "game_inv s" "list_all (\<lambda>j. j < 5) ks"
  shows "k \<notin> set ks \<Longrightarrow> rows_of s' pl ! k = rows_of s pl ! k"
    and "board_of s pl ! r ! c = 1 \<Longrightarrow> board_of s' pl ! r ! c = 1"
proof -
  have "(k \<notin> set ks \<longrightarrow> rows_of s' pl ! k = rows_of s pl ! k)
         \<and> (board_of s pl ! r ! c = 1 \<longrightarrow> board_of s' pl ! r ! c = 1)"
    using assms
  proof (induction ks arbitrary: s)
    case Nil
    then show ?case by simp
  next
    case (Cons j ks)
    from Cons.prems(1) obtain s1 where s1: "score_row s pl j = Some s1"
      and r: "score_rows s1 pl ks = Some s'"
      unfolding score_rows.simps by (rule bind_SomeE)
    have j: "j < 5" and rest: "list_all (\<lambda>j. j < 5) ks" using Cons.prems(3) by simp_all
    have inv1: "game_inv s1" by (rule score_row_inv[OF s1 Cons.prems(2) j])
    note ih = Cons.IH[OF r inv1 rest]
    note fr = score_row_frame[OF s1 Cons.prems(2) j]
    show ?case using ih fr(1)[of k] fr(2) by auto
  qed
  then show "k \<notin> set ks \<Longrightarrow> rows_of s' pl ! k = rows_of s pl ! k"
    and "board_of s pl ! r ! c = 1 \<Longrightarrow> board_of s' pl ! r ! c = 1" by simp_all
qed

lemma score_rows_append:
  "score_rows s pl (xs @ ys) = score_rows s pl xs \<bind> (\<lambda>s'. score_rows s' pl ys)"
  by (induction xs arbitrary: s) simp_all

lemma calculate_penality_frame:
  assumes "calculate_penality s pl = Some s'"
  shows "rows_of s' pl = rows_of s pl" "board_of s' pl = board_of s pl"
proof -
  from assms[unfolded calculate_penality_def]
  obtain pen where "Some (update_score s pl pen) = Some s'" by (rule bind_SomeE)
  then have s': "s' = update_score s pl pen" by simp
  show "rows_of s' pl = rows_of s pl" "board_of s' pl = board_of s pl"
    unfolding s' by (cases pl; simp add: update_score_def rows_of_def board_of_def)+
qed

lemma upt_split3: "k < n \<Longrightarrow> [0..<n] = [0..<k] @ k # [Suc k..<n]"
proof -
  assume a: "k < n"
  then have "[0..<n] = [0..<k] @ [k..<n]"
    using upt_add_eq_append[of 0 k "n - k"] by simp
  then show ?thesis using a by (simp add: upt_conv_Cons)
qed

text \<open>
  C4.  Let row \<open>k\<close> of a player be fully occupied by one color when \<open>calculate_score\<close>
  starts, \<open>s0\<close> be the state when its loop reaches row \<open>k\<close> and \<open>s1\<close> the state after that
  iteration.  The iteration clears the row, sets the wall cell of row \<open>k\<close> and column
  \<open>(color + k) mod 5\<close>, and adds to the score 1 plus, along the row and down the column,
  the length of the run of set cells through the new cell minus one.  When
  \<open>calculate_score\<close> returns the row is still empty and the wall cell still set.
\<close>

theorem completed_row_scored:
  assumes inv: "game_inv s" and k: "k < 5"
    and full: "rows_of s player ! k = replicate (k + 1) (color + 1)" and col: "color + 1 \<noteq> 0"
    and c: "c = nat ((color + int k) mod 5)"
  shows "\<exists>s0 s1 s'.
           score_rows s player [0..<k] = Some s0
         \<and> score_row s0 player k = Some s1
         \<and> calculate_score s player = Some s'
         \<and> rows_of s1 player ! k = replicate (k + 1) 0
         \<and> board_of s1 player = (board_of s0 player)[k := (board_of s0 player ! k)[c := 1]]
         \<and> score_of s1 player
             = score_of s0 player
               + (1 + (run_through (board_of s1 player ! k) c - 1)
                    + (run_through (map (\<lambda>row. row ! c) (board_of s1 player)) k - 1))
         \<and> rows_of s' player ! k = replicate (k + 1) 0
         \<and> board_of s' player ! k ! c = 1"
proof -
  have l5: "length (rows_of s player) = 5"
    using shape_length[OF rows_shape_of[OF inv]] by simp
  have a0: "list_all (\<lambda>j. j < 5) [0..<k]" using k by (simp add: list_all_iff)
  have a2: "list_all (\<lambda>j. j < 5) [Suc k..<5]" by (simp add: list_all_iff)
  from score_rows_total[OF inv a0, of player]
  obtain s0 where s0: "score_rows s player [0..<k] = Some s0" by blast
  have inv0: "game_inv s0" by (rule score_rows_inv[OF s0 inv a0])
  have r0: "rows_of s0 player ! k = replicate (k + 1) (color + 1)"
    using score_rows_frame(1)[OF s0 inv a0, of k] full by simp
  have sc0: "0 \<le> score_of s0 player"
    using inv0 by (cases player) (simp_all add: game_inv_def score_of_def)
  from score_row_completed[OF game_inv_wf[OF inv0] k r0 col sc0 c refl]
  obtain s1 where s1: "score_row s0 player k = Some s1"
    and rw1: "rows_of s1 player = (rows_of s0 player)[k := replicate (k + 1) 0]"
    and bd1: "board_of s1 player = (board_of s0 player)[k := (board_of s0 player ! k)[c := 1]]"
    and cell1: "(board_of s0 player)[k := (board_of s0 player ! k)[c := 1]] ! k ! c = 1"
    and sc1: "score_of s1 player
             = score_of s0 player
               + (1 + (run_through ((board_of s0 player)[k := (board_of s0 player ! k)[c := 1]] ! k) c - 1)
                    + (run_through (map (\<lambda>row. row ! c)
                         ((board_of s0 player)[k := (board_of s0 player ! k)[c := 1]])) k - 1))"
    by blast
  have inv1: "game_inv s1" by (rule score_row_inv[OF s1 inv0 k])
  have kl: "k < length (rows_of s0 player)"
    using shape_length[OF rows_shape_of[OF inv0]] k by simp
  have rk1: "rows_of s1 player ! k = replicate (k + 1) 0" unfolding rw1 using kl by simp
  from score_rows_total[OF inv1 a2, of player]
  obtain s2 where s2: "score_rows s1 player [Suc k..<5] = Some s2" by blast
  have inv2: "game_inv s2" by (rule score_rows_inv[OF s2 inv1 a2])
  have rk2: "rows_of s2 player ! k = replicate (k + 1) 0"
    using score_rows_frame(1)[OF s2 inv1 a2, of k] rk1 by simp
  have c2: "board_of s2 player ! k ! c = 1"
    using score_rows_frame(2)[OF s2 inv1 a2, of k c] cell1 bd1 by simp
  have all: "score_rows s player [0..<length (rows_of s player)] = Some s2"
    unfolding l5 upt_split3[OF k] score_rows_append by (simp add: s0 s1 s2)
  from calculate_penality_total[OF wf_shape_of(3)[OF game_inv_wf[OF inv2]], of player]
  obtain s' where s': "calculate_penality s2 player = Some s'" by blast
  have cs: "calculate_score s player = Some s'"
    by (simp add: calculate_score_def all s')
  have fin: "rows_of s' player ! k = replicate (k + 1) 0" "board_of s' player ! k ! c = 1"
    using calculate_penality_frame[OF s'] rk2 c2 by simp_all
  show ?thesis
    using s0 s1 cs rk1 bd1 sc1[folded bd1] fin by blast
qed

theorem completed_row_scored_witness:
  "game_inv scoring_game
   \<and> rows_of scoring_game P1 ! 3 = replicate (3 + 1) (2 + 1)
   \<and> nat ((2 + int 3) mod 5) = 0
   \<and> map_option (\<lambda>s. (rows_p1 s ! 3, board_p1 s ! 3, p1_score s)) (calculate_score scoring_game P1)
       = Some ([0, 0, 0, 0], [1, 1, 0, 0, 0], 4)
   \<and> (\<exists>s0 s1 s'.
           score_rows scoring_game P1 [0..<3] = Some s0
         \<and> score_row s0 P1 3 = Some s1
         \<and> calculate_score scoring_game P1 = Some s'
         \<and> rows_of s1 P1 ! 3 = replicate (3 + 1) 0
         \<and> score_of s1 P1
             = score_of s0 P1
               + (1 + (run_through (board_of s1 P1 ! 3) 0 - 1)
                    + (run_through (map (\<lambda>row. row ! 0) (board_of s1 P1)) 3 - 1))
         \<and> rows_of s' P1 ! 3 = replicate (3 + 1) 0
         \<and> board_of s' P1 ! 3 ! 0 = 1)"
proof -
  have inv: "game_inv scoring_game" by code_simp
  have full: "rows_of scoring_game P1 ! 3 = replicate (3 + 1) (2 + 1)" by code_simp
  have c: "nat ((2 + int 3) mod 5) = 0" by simp
  have ev: "map_option (\<lambda>s. (rows_p1 s ! 3, board_p1 s ! 3, p1_score s))
              (calculate_score scoring_game P1) = Some ([0, 0, 0, 0], [1, 1, 0, 0, 0], 4)"
    by code_simp
  from completed_row_scored[OF inv _ full _ c[symmetric]]
  have "\<exists>s0 s1 s'.
           score_rows scoring_game P1 [0..<3] = Some s0
         \<and> score_row s0 P1 3 = Some s1
         \<and> calculate_score scoring_game P1 = Some s'
         \<and> rows_of s1 P1 ! 3 = replicate (3 + 1) 0
         \<and> board_of s1 P1 = (board_of s0 P1)[3 := (board_of s0 P1 ! 3)[0 := 1]]
         \<and> score_of s1 P1
             = score_of s0 P1
               + (1 + (run_through (board_of s1 P1 ! 3) 0 - 1)
                    + (run_through (map (\<lambda>row. row ! 0) (board_of s1 P1)) 3 - 1))
         \<and> rows_of s' P1 ! 3 = replicate (3 + 1) 0
         \<and> board_of s' P1 ! 3 ! 0 = 1"
    by simp
  then have "\<exists>s0 s1 s'.
           score_rows scoring_game P1 [0..<3] = Some s0
         \<and> score_row s0 P1 3 = Some s1
         \<and> calculate_score scoring_game P1 = Some s'
         \<and> rows_of s1 P1 ! 3 = replicate (3 + 1) 0
         \<and> score_of s1 P1
             = score_of s0 P1
               + (1 + (run_through (board_of s1 P1 ! 3) 0 - 1)
                    + (run_through (map (\<lambda>row. row ! 0) (board_of s1 P1)) 3 - 1))
         \<and> rows_of s' P1 ! 3 = replicate (3 + 1) 0
         \<and> board_of s' P1 ! 3 ! 0 = 1"
    by blast
  with inv full c ev show ?thesis by blast
qed

section \<open>Scores\<close>

lemma penalty_cost_tier: "penalty_cost (int i) = spec_slot_cost i"
  by (simp add: penalty_cost_def spec_slot_cost_def)

lemma penality_sum_cost:
  assumes "j + m \<le> length row"
  shows "penality_sum row pen (map int [j..<j + m])
           = Some (pen - sum_list (map (\<lambda>i. if row ! i \<noteq> 0 then spec_slot_cost i else 0) [j..<j + m]))"
  using assms
proof (induction m arbitrary: j pen)
  case 0
  then show ?case by simp
next
  case (Suc m)
  have j: "j < length row" using Suc.prems by simp
  have upt: "[j..<j + Suc m] = j # [Suc j..<Suc j + m]" by (simp add: upt_conv_Cons)
  have g: "getitem row (int j) = Some (row ! j)" by (rule getitem_nat[OF j])
  have le: "Suc j + m \<le> length row" using Suc.prems by simp
  note ih = Suc.IH[OF le]
  have "penality_sum row pen (map int (j # [Suc j..<Suc j + m]))
          = Some (pen - sum_list (map (\<lambda>i. if row ! i \<noteq> 0 then spec_slot_cost i else 0)
                                   (j # [Suc j..<Suc j + m])))"
    using ih[of "pen - spec_slot_cost j"] ih[of pen]
    by (simp add: g penalty_cost_tier del: upt_Suc)
  then show ?case by (simp only: upt)
qed

lemma calculate_penality_result:
  assumes "length (penalty_of s pl) = 7"
  shows "calculate_penality s pl = Some (update_score s pl (- spec_penalty_total (penalty_of s pl)))"
proof -
  have r: "range_int 7 = map int [0..<0 + 7]" by (simp add: range_int_def)
  have "penality_sum (penalty_of s pl) 0 (map int [0..<0 + 7])
          = Some (0 - sum_list (map (\<lambda>i. if penalty_of s pl ! i \<noteq> 0 then spec_slot_cost i else 0) [0..<0 + 7]))"
    by (rule penality_sum_cost) (simp add: assms)
  then show ?thesis
    unfolding calculate_penality_def r by (simp add: spec_penalty_total_def)
qed

lemma update_score_clamp:
  "score_of (update_score s pl pts) pl = max 0 (score_of s pl + pts)"
  by (cases pl) (simp_all add: update_score_def score_of_def)

lemma score_row_score:
  assumes sr: "score_row s pl j = Some s'" and inv: "game_inv s" and j: "j < 5"
  shows "penalty_of s' pl = penalty_of s pl" "score_of s pl \<le> score_of s' pl"
proof -
  have "penalty_of s' pl = penalty_of s pl \<and> score_of s pl \<le> score_of s' pl"
    using sr
  proof (cases rule: score_row_cases)
    case skip
    then show ?thesis by simp
  next
    case (scored first_elem s1 pts s2)
    have sc: "0 \<le> score_of s pl"
      using inv by (cases pl) (simp_all add: game_inv_def score_of_def)
    have s1: "s1 = set_rows s pl ((rows_of s pl)[j := replicate (j + 1) 0])"
      using clear_row_result[OF rows_shape_of[OF inv] j] scored(3) by simp
    have b1: "board_of s1 pl = board_of s pl"
      by (cases pl) (simp_all add: s1 set_rows_def board_of_def)
    have sh1: "map length (board_of s1 pl) = [5, 5, 5, 5, 5]"
      unfolding b1 by (rule wf_shape_of(1)[OF game_inv_wf[OF inv]])
    define c where "c = nat ((first_elem - 1 + int j) mod 5)"
    define w where "w = (board_of s1 pl)[j := (board_of s1 pl ! j)[c := 1]]"
    have c5: "c < 5" by (simp add: c_def)
    note at = add_tile_result[OF sh1 j c_def w_def]
    have p: "pts = 1 + (run_through (w ! j) c - 1) + (run_through (map (\<lambda>row. row ! c) w) j - 1)"
      and s2: "s2 = set_board s1 pl w"
      using at scored(4) by simp_all
    have lk: "length (board_of s1 pl ! j) = 5" "length (board_of s1 pl) = 5"
      using board_shape_nth[OF sh1 j] by simp_all
    have cell: "w ! j ! c = 1" unfolding w_def using lk j c5 by simp
    have lw: "c < length (w ! j)" "j < length (map (\<lambda>row. row ! c) w)"
      unfolding w_def using lk j c5 by simp_all
    have "1 \<le> run_through (w ! j) c" using run_through_pos[OF lw(1)] cell by simp
    moreover have "1 \<le> run_through (map (\<lambda>row. row ! c) w) j"
      using run_through_pos[OF lw(2)] cell lw(2) by simp
    ultimately have p1: "1 \<le> pts" by (simp add: p)
    have e: "score_of s2 pl = score_of s pl" "penalty_of s2 pl = penalty_of s pl"
      by (cases pl; simp add: s2 s1 set_rows_def set_board_def score_of_def penalty_of_def)+
    have "penalty_of s' pl = penalty_of s pl"
      unfolding scored(5) using e(2)
      by (cases pl) (simp_all add: update_score_def penalty_of_def)
    moreover have "score_of s' pl = max 0 (score_of s pl + pts)"
      unfolding scored(5) update_score_clamp e(1) ..
    ultimately show ?thesis using p1 sc by simp
  qed
  then show "penalty_of s' pl = penalty_of s pl" "score_of s pl \<le> score_of s' pl"
    by simp_all
qed

lemma score_rows_score:
  assumes "score_rows s pl ks = Some s'" "game_inv s" "list_all (\<lambda>j. j < 5) ks"
  shows "penalty_of s' pl = penalty_of s pl" "score_of s pl \<le> score_of s' pl"
proof -
  have "penalty_of s' pl = penalty_of s pl \<and> score_of s pl \<le> score_of s' pl"
    using assms
  proof (induction ks arbitrary: s)
    case Nil
    then show ?case by simp
  next
    case (Cons j ks)
    from Cons.prems(1) obtain s1 where s1: "score_row s pl j = Some s1"
      and r: "score_rows s1 pl ks = Some s'"
      unfolding score_rows.simps by (rule bind_SomeE)
    have j: "j < 5" and rest: "list_all (\<lambda>j. j < 5) ks" using Cons.prems(3) by simp_all
    have inv1: "game_inv s1" by (rule score_row_inv[OF s1 Cons.prems(2) j])
    note ih = Cons.IH[OF r inv1 rest]
    note fr = score_row_score[OF s1 Cons.prems(2) j]
    show ?case using ih fr by simp
  qed
  then show "penalty_of s' pl = penalty_of s pl" "score_of s pl \<le> score_of s' pl"
    by simp_all
qed

lemma reachable_play:
  assumes "reachable s" "play s as d = Some (s', d')"
  shows "reachable s'"
  using assms
proof (induction as arbitrary: s d)
  case Nil
  then show ?case by simp
next
  case (Cons a as)
  from Cons.prems(2) obtain x where x: "step s a = Some x"
    and r: "(case x of (s1, r, d1) \<Rightarrow> play s1 as d1) = Some (s', d')"
    unfolding play.simps by (rule bind_SomeE)
  obtain s1 r1 d1 where xo: "x = (s1, r1, d1)" by (cases x)
  have "reachable s1" using Cons.prems(1) x[unfolded xo] by (rule reachable_step)
  then show ?case using Cons.IH[of s1 d1] r[unfolded xo] by simp
qed

lemma reachable_mid_round_game: "reachable mid_round_game"
proof -
  have "valid_draws [[0, 0, 0, 0], [1, 1, 1, 1], [2, 2, 2, 2], [3, 3, 3, 3], [4, 4, 4, 4]]"
    by (simp add: valid_draws_def)
  then have r: "reachable single_color_game"
    unfolding single_color_game_def by (rule reachable_new)
  have "play single_color_game [0, 37, 74, 111] False = Some (mid_round_game, False)"
    by code_simp
  with r show ?thesis by (rule reachable_play)
qed

text \<open>
  C8.  In every reachable state both scores are non-negative, and every score update
  clamps at zero.  \<open>update_score\<close> leaves the score at \<open>max 0 (score + points)\<close>.
  The penalty application \<open>calculate_penality\<close> returns and leaves the player's score at
  \<open>max 0 (score - cost)\<close>, where the cost is that of the occupied slots of the player's
  penalty track (1 for the slots 0 and 1, 2 for the slots 2 to 4, 3 for the slots 5 and 6):
  a penalty larger than the score gives exactly zero.  Round scoring \<open>calculate_score\<close>
  returns; its pass over the five staging rows never lowers the score, and the result is
  the score after that pass less the same cost, clamped at zero.
\<close>

theorem scores_never_negative:
  assumes "reachable s"
  shows "0 \<le> p1_score s \<and> 0 \<le> p2_score s
       \<and> score_of (update_score s player points) player = max 0 (score_of s player + points)
       \<and> (\<exists>s'. calculate_penality s player = Some s'
              \<and> score_of s' player
                  = max 0 (score_of s player - spec_penalty_total (penalty_of s player)))
       \<and> (\<exists>s1 s'. score_rows s player [0..<5] = Some s1
              \<and> calculate_score s player = Some s'
              \<and> score_of s player \<le> score_of s1 player
              \<and> score_of s' player
                  = max 0 (score_of s1 player - spec_penalty_total (penalty_of s player)))"
proof -
  have inv: "game_inv s" by (rule reachable_inv[OF assms])
  then have nn: "0 \<le> p1_score s \<and> 0 \<le> p2_score s" by (simp add: game_inv_def)
  have cl: "score_of (update_score s player points) player
              = max 0 (score_of s player + points)"
    by (rule update_score_clamp)
  have cp: "calculate_penality s player
              = Some (update_score s player (- spec_penalty_total (penalty_of s player)))"
    by (rule calculate_penality_result[OF wf_shape_of(3)[OF game_inv_wf[OF inv]]])
  have pen: "\<exists>s'. calculate_penality s player = Some s'
              \<and> score_of s' player
                  = max 0 (score_of s player - spec_penalty_total (penalty_of s player))"
    unfolding cp using update_score_clamp[of s player "- spec_penalty_total (penalty_of s player)"]
    by simp
  have l5: "length (rows_of s player) = 5"
    using shape_length[OF rows_shape_of[OF inv]] by simp
  have all: "list_all (\<lambda>k. k < 5) [0..<5]" by (simp add: list_all_iff)
  from score_rows_total[OF inv all, of player]
  obtain s1 where s1: "score_rows s player [0..<5] = Some s1" by blast
  have inv1: "game_inv s1" by (rule score_rows_inv[OF s1 inv all])
  note fr = score_rows_score[OF s1 inv all]
  have cp1: "calculate_penality s1 player
              = Some (update_score s1 player (- spec_penalty_total (penalty_of s player)))"
    using calculate_penality_result[OF wf_shape_of(3)[OF game_inv_wf[OF inv1]], of player] fr(1)
    by simp
  have cs: "calculate_score s player
              = Some (update_score s1 player (- spec_penalty_total (penalty_of s player)))"
    by (simp add: calculate_score_def l5 s1 cp1)
  have rs: "\<exists>s1 s'. score_rows s player [0..<5] = Some s1
              \<and> calculate_score s player = Some s'
              \<and> score_of s player \<le> score_of s1 player
              \<and> score_of s' player
                  = max 0 (score_of s1 player - spec_penalty_total (penalty_of s player))"
    using s1 cs fr(2) update_score_clamp[of s1 player "- spec_penalty_total (penalty_of s player)"]
    by simp
  show ?thesis using nn cl pen rs by blast
qed

theorem scores_never_negative_witness:
  "0 \<le> p1_score mid_round_game \<and> 0 \<le> p2_score mid_round_game
   \<and> spec_penalty_total (penalty_of mid_round_game P1) = 6
   \<and> map_option (\<lambda>s. score_of s P1) (score_rows mid_round_game P1 [0..<5]) = Some 2
   \<and> map_option (\<lambda>s. score_of s P1) (calculate_score mid_round_game P1) = Some 0
   \<and> map_option (\<lambda>s. score_of s P1) (calculate_penality mid_round_game P1) = Some 0
   \<and> score_of (update_score mid_round_game P1 (- 6)) P1 = 0"
proof -
  from scores_never_negative[OF reachable_mid_round_game, of P1 "- 6"]
  have a: "0 \<le> p1_score mid_round_game \<and> 0 \<le> p2_score mid_round_game"
    and b: "score_of (update_score mid_round_game P1 (- 6)) P1
              = max 0 (score_of mid_round_game P1 + - 6)"
    by simp_all
  have c: "score_of mid_round_game P1 = 0" by code_simp
  have d: "spec_penalty_total (penalty_of mid_round_game P1) = 6" by code_simp
  have e: "map_option (\<lambda>s. score_of s P1) (score_rows mid_round_game P1 [0..<5]) = Some 2"
    by code_simp
  have f: "map_option (\<lambda>s. score_of s P1) (calculate_score mid_round_game P1) = Some 0"
    by code_simp
  have g: "map_option (\<lambda>s. score_of s P1) (calculate_penality mid_round_game P1) = Some 0"
    by code_simp
  show ?thesis using a b c d e f g by simp
qed

end
